theory Spec2Isabelle
  imports Main
begin

section \<open>The external version-control tool\<close>

text \<open>
  The script (src/unnamed/part_000) drives git through \<^verbatim>\<open>execSync\<close>: every call blocks
  until the subprocess ends, returns its standard output, and throws when the exit status
  is not zero. The commands the script issues are the constructors of \<open>cmd\<close>;
  \<open>git_args\<close> is the argument string the source passes to \<^verbatim>\<open>runGit\<close> for each.
\<close>

datatype cmd =
    Status
  | UpstreamRef
  | Fetch
  | RevParseHead
  | RevParseUpstream
  | Stash
  | PullRebase
  | StashPop
  | AddU
  | Commit string
  | Push

text \<open>\<^verbatim>\<open>message.replace(/"/g, '\\"')\<close>: a backslash before every double quote.\<close>

fun escape_quotes :: "string \<Rightarrow> string" where
  "escape_quotes [] = []"
| "escape_quotes (c # cs) =
     (if c = CHR 0x22 then CHR 0x5C # CHR 0x22 # escape_quotes cs else c # escape_quotes cs)"

fun git_args :: "cmd \<Rightarrow> string" where
  "git_args Status = ''status --porcelain''"
| "git_args UpstreamRef = ''rev-parse --abbrev-ref --symbolic-full-name @'' @ ''{u}''"
| "git_args Fetch = ''fetch''"
| "git_args RevParseHead = ''rev-parse HEAD''"
| "git_args RevParseUpstream = ''rev-parse @'' @ ''{u}''"
| "git_args Stash = ''stash''"
| "git_args PullRebase = ''pull --rebase''"
| "git_args StashPop = ''stash pop''"
| "git_args AddU = ''add -u''"
| "git_args (Commit message) = ''commit -m '' @ [CHR 0x22] @ escape_quotes message @ [CHR 0x22]"
| "git_args Push = ''push''"

text \<open>The error object a failed \<^verbatim>\<open>execSync\<close> throws, as the text it carries.\<close>

type_synonym err = string

text \<open>
  What is observable of a run: the git calls with their outcomes (\<open>Inl\<close> the thrown error,
  \<open>Inr\<close> the output), the console lines, and the assignments to \<^verbatim>\<open>isSyncing\<close>.
\<close>

datatype event =
    Call cmd "err + string"
  | Log string
  | Warn string
  | LogError string err
  | SetLock bool

text \<open>
  The process state: the module variable \<^verbatim>\<open>isSyncing\<close>, the world outside the process
  (repository, remote, clock) and the events so far.
\<close>

record 'w state =
  isSyncing :: bool
  world :: 'w
  events :: "event list"

text \<open>
  The environment is a parameter: \<open>exec\<close> runs one git command in the world, \<open>now\<close> is
  \<^verbatim>\<open>new Date().toISOString()\<close>, \<open>GIT_AUTO_MESSAGE\<close> is the environment variable of that
  name (\<open>None\<close> when unset).
\<close>

record 'w env =
  exec :: "cmd \<Rightarrow> 'w \<Rightarrow> (err + string) \<times> 'w"
  now :: "'w \<Rightarrow> string"
  GIT_AUTO_MESSAGE :: "string option"

section \<open>Control flow of the script\<close>

text \<open>
  A statement ends normally, by \<^verbatim>\<open>return\<close>, or by a thrown error; \<^verbatim>\<open>finally\<close> blocks
  run on all three.
\<close>

datatype 'a completion = Normal | Return 'a | Throw err

type_synonym ('a, 'w) stmt = "'w state \<Rightarrow> 'a completion \<times> 'w state"

definition emit :: "event \<Rightarrow> 'w state \<Rightarrow> 'w state" where
  "emit e s = s\<lparr>events := events s @ [e]\<rparr>"

definition skip :: "('a, 'w) stmt" where
  "skip s = (Normal, s)"

definition ret :: "'a \<Rightarrow> ('a, 'w) stmt" where
  "ret v s = (Return v, s)"

definition console_log :: "string \<Rightarrow> ('a, 'w) stmt" where
  "console_log m s = (Normal, emit (Log m) s)"

definition console_warn :: "string \<Rightarrow> ('a, 'w) stmt" where
  "console_warn m s = (Normal, emit (Warn m) s)"

definition console_error :: "string \<Rightarrow> err \<Rightarrow> ('a, 'w) stmt" where
  "console_error m e s = (Normal, emit (LogError m e) s)"

definition set_isSyncing :: "bool \<Rightarrow> ('a, 'w) stmt" where
  "set_isSyncing b s = (Normal, emit (SetLock b) (s\<lparr>isSyncing := b\<rparr>))"

text \<open>\<^verbatim>\<open>a; b\<close>: \<open>b\<close> runs only when \<open>a\<close> ends normally.\<close>

definition seq :: "('a, 'w) stmt \<Rightarrow> ('a, 'w) stmt \<Rightarrow> ('a, 'w) stmt" where
  "seq a b s = (case a s of (Normal, s1) \<Rightarrow> b s1 | (c, s1) \<Rightarrow> (c, s1))"

text \<open>\<^verbatim>\<open>try { a } catch (err) { h }\<close>\<close>

definition try_catch :: "('a, 'w) stmt \<Rightarrow> (err \<Rightarrow> ('a, 'w) stmt) \<Rightarrow> ('a, 'w) stmt" where
  "try_catch a h s = (case a s of (Throw e, s1) \<Rightarrow> h e s1 | (c, s1) \<Rightarrow> (c, s1))"

text \<open>
  \<^verbatim>\<open>try { a } finally { f }\<close>: \<open>f\<close> runs however \<open>a\<close> ended; when \<open>f\<close> ends normally
  the completion of \<open>a\<close> stands, otherwise that of \<open>f\<close> replaces it.
\<close>

definition try_finally :: "('a, 'w) stmt \<Rightarrow> ('a, 'w) stmt \<Rightarrow> ('a, 'w) stmt" where
  "try_finally a f s =
     (case a s of (c, s1) \<Rightarrow>
        (case f s1 of (Normal, s2) \<Rightarrow> (c, s2) | (c', s2) \<Rightarrow> (c', s2)))"

text \<open>
  A call whose value is used: a thrown error propagates, a returned value is passed on,
  and a body that ends without \<^verbatim>\<open>return\<close> gives \<^verbatim>\<open>undefined\<close>, written \<open>undef\<close> at the
  type of the value.
\<close>

definition call :: "('a, 'w) stmt \<Rightarrow> 'a \<Rightarrow> ('a \<Rightarrow> ('b, 'w) stmt) \<Rightarrow> ('b, 'w) stmt" where
  "call f undef k s =
     (case f s of
        (Throw e, s1) \<Rightarrow> (Throw e, s1)
      | (Return v, s1) \<Rightarrow> k v s1
      | (Normal, s1) \<Rightarrow> k undef s1)"

text \<open>A call as a statement: the callee's \<^verbatim>\<open>return\<close> does not return from the caller.\<close>

definition call_void :: "('a, 'w) stmt \<Rightarrow> ('b, 'w) stmt" where
  "call_void f s =
     (case f s of (Throw e, s1) \<Rightarrow> (Throw e, s1) | (_, s1) \<Rightarrow> (Normal, s1))"

section \<open>The functions of the script\<close>

text \<open>\<^verbatim>\<open>runGit(cmd)\<close> as an expression: the world moves on, the call is recorded.\<close>

definition runGit :: "'w env \<Rightarrow> cmd \<Rightarrow> 'w state \<Rightarrow> (err + string) \<times> 'w state" where
  "runGit E c s =
     (case exec E c (world s) of (r, w) \<Rightarrow> (r, emit (Call c r) (s\<lparr>world := w\<rparr>)))"

text \<open>\<^verbatim>\<open>runGit(cmd);\<close> with the output dropped.\<close>

definition git :: "'w env \<Rightarrow> cmd \<Rightarrow> ('a, 'w) stmt" where
  "git E c s = (case runGit E c s of (Inl e, s1) \<Rightarrow> (Throw e, s1) | (Inr _, s1) \<Rightarrow> (Normal, s1))"

text \<open>\<^verbatim>\<open>const out = runGit(cmd); ...\<close>\<close>

definition git_bind :: "'w env \<Rightarrow> cmd \<Rightarrow> (string \<Rightarrow> ('a, 'w) stmt) \<Rightarrow> ('a, 'w) stmt" where
  "git_bind E c k s =
     (case runGit E c s of (Inl e, s1) \<Rightarrow> (Throw e, s1) | (Inr out, s1) \<Rightarrow> k out s1)"

text \<open>
  \<^verbatim>\<open>String.prototype.trim\<close> on the ASCII white space and line terminators (tab, line
  feed, vertical tab, form feed, carriage return, space).
\<close>

definition is_ws :: "char \<Rightarrow> bool" where
  "is_ws c = (c \<in> set [CHR 0x09, CHR 0x0A, CHR 0x0B, CHR 0x0C, CHR 0x0D, CHR 0x20])"

definition trim :: "string \<Rightarrow> string" where
  "trim s = rev (dropWhile is_ws (rev (dropWhile is_ws s)))"

text \<open>\<^verbatim>\<open>!upstream\<close> for a \<^verbatim>\<open>string | null\<close>: null and the empty string are falsy.\<close>

definition falsy :: "string option \<Rightarrow> bool" where
  "falsy u = (case u of None \<Rightarrow> True | Some v \<Rightarrow> v = [])"

text \<open>
  \<^verbatim>\<open>hasLocalChanges\<close> (lines 16-27): true when the status output is not blank; a failed
  status query is logged and answered with false.
\<close>

definition hasLocalChanges :: "'w env \<Rightarrow> (bool, 'w) stmt" where
  "hasLocalChanges E =
     try_catch
       (git_bind E Status (\<lambda>status. ret (0 < length (trim status))))
       (\<lambda>err. seq (console_error ''Failed to check local changes:'' err) (ret False))"

text \<open>
  \<^verbatim>\<open>getUpstreamRef\<close> (lines 29-43): \<^verbatim>\<open>upstream.trim() || null\<close>, and null on any failure
  of the query, without a console line.
\<close>

definition getUpstreamRef :: "'w env \<Rightarrow> (string option, 'w) stmt" where
  "getUpstreamRef E =
     try_catch
       (git_bind E UpstreamRef
          (\<lambda>upstream. ret (if trim upstream = [] then None else Some (trim upstream))))
       (\<lambda>_. ret None)"

text \<open>\<^verbatim>\<open>hasRemoteChanges\<close> (lines 45-77): the whole body is inside one \<^verbatim>\<open>try\<close>.\<close>

definition hasRemoteChanges :: "'w env \<Rightarrow> (bool, 'w) stmt" where
  "hasRemoteChanges E =
     try_catch
       (call (getUpstreamRef E) None (\<lambda>upstream.
          if falsy upstream then
            seq (console_warn
                   ''No upstream configured for current branch; skipping remote change check.'')
                (ret False)
          else
            seq (git E Fetch)
           (git_bind E RevParseHead (\<lambda>localHead.
            git_bind E RevParseUpstream (\<lambda>remoteHead.
            ret (trim localHead \<noteq> trim remoteHead))))))
       (\<lambda>err. seq (console_error ''Failed to check remote changes:'' err) (ret False))"

text \<open>
  \<^verbatim>\<open>syncFromOrigin\<close> (lines 79-113). \<^verbatim>\<open>stash\<close> is outside the \<^verbatim>\<open>try\<close>. In
  \<^verbatim>\<open>try { pull } catch (err) { log; return; } finally { if (hadLocal) { pop } }\<close> the
  \<^verbatim>\<open>finally\<close> block also runs after the \<^verbatim>\<open>return\<close> of the \<^verbatim>\<open>catch\<close> block. (The check
  mark that starts the success line is left out of the text.)
\<close>

definition syncFromOrigin :: "'w env \<Rightarrow> (unit, 'w) stmt" where
  "syncFromOrigin E =
     seq (console_log ''Pulling changes from upstream...'')
    (call (hasLocalChanges E) False (\<lambda>hadLocal.
     seq (if hadLocal then
            seq (console_log ''Stashing local changes...'') (git E Stash)
          else skip)
    (try_finally
       (try_catch
          (seq (git E PullRebase) (console_log ''Pulled latest changes''))
          (\<lambda>err.
             seq (console_error
                    ''Error pulling from upstream. Manual intervention may be required:'' err)
                 (ret ())))
       (if hadLocal then
          seq (console_log ''Restoring stashed changes...'')
              (try_catch (git E StashPop)
                 (\<lambda>err. console_error
                    ''Error applying stashed changes. Resolve conflicts manually:'' err))
        else skip))))"

text \<open>\<^verbatim>\<open>const timestamp = new Date().toISOString(); ...\<close>\<close>

definition read_clock :: "'w env \<Rightarrow> (string \<Rightarrow> ('a, 'w) stmt) \<Rightarrow> ('a, 'w) stmt" where
  "read_clock E k s = k (now E (world s)) s"

text \<open>
  \<^verbatim>\<open>process.env.GIT_AUTO_MESSAGE ?? `Automated commit at ${timestamp}`\<close>: the variable
  when it is set (also to the empty string), the default otherwise.
\<close>

definition commit_message :: "'w env \<Rightarrow> string \<Rightarrow> string" where
  "commit_message E timestamp =
     (case GIT_AUTO_MESSAGE E of Some m \<Rightarrow> m | None \<Rightarrow> ''Automated commit at '' @ timestamp)"

text \<open>
  The push sub-procedure. \<^verbatim>\<open>add -u\<close> and \<^verbatim>\<open>commit\<close> are outside any \<^verbatim>\<open>try\<close>: their
  errors leave the function. (The check mark that starts the success line is left out.)
\<close>

definition syncToOrigin :: "'w env \<Rightarrow> (unit, 'w) stmt" where
  "syncToOrigin E =
     seq (console_log ''Adding changes...'')
    (seq (git E AddU)
    (call (hasLocalChanges E) False (\<lambda>changed.
     if \<not> changed then
       seq (console_log ''No staged changes to commit after add -u; skipping commit.'')
           (ret ())
     else
       read_clock E (\<lambda>timestamp.
       let message = commit_message E timestamp in
         seq (console_log ''Committing changes...'')
        (seq (git E (Commit message))
        (seq (console_log ''Pushing changes to upstream...'')
        (try_catch
           (seq (git E Push) (console_log (''Committed & pushed at '' @ timestamp)))
           (\<lambda>err. console_error ''Error pushing to remote. Resolve manually:'' err))))))))"

text \<open>
  \<^verbatim>\<open>sync\<close> (lines 143-177): the check of the lock, then the cycle inside
  \<^verbatim>\<open>try { ... } catch (err) { ... } finally { isSyncing = false; }\<close>.
\<close>

definition sync :: "'w env \<Rightarrow> (unit, 'w) stmt" where
  "sync E s =
     (if isSyncing s then
        seq (console_log ''Sync already in progress, skipping...'') (ret ()) s
      else
        seq (set_isSyncing True)
       (try_finally
          (try_catch
             (call (getUpstreamRef E) None (\<lambda>upstream.
                if falsy upstream then
                  seq (console_warn
                    ''No upstream configured for current branch. Configure one to enable syncing.'')
                      (ret ())
                else
                  seq (call (hasRemoteChanges E) False (\<lambda>remote.
                         if remote then call_void (syncFromOrigin E) else skip))
                      (call (hasLocalChanges E) False (\<lambda>local.
                         if local then
                           seq (console_log ''Local changes detected, pushing to upstream...'')
                               (call_void (syncToOrigin E))
                         else console_log ''No local changes to sync.''))))
             (\<lambda>err. console_error ''Error during sync:'' err))
          (set_isSyncing False)) s)"

text \<open>
  The scheduler: \<^verbatim>\<open>sync()\<close> once at start, then on every timer tick. Every git call is
  synchronous, so a tick runs to its end before the next begins; an error that escaped
  \<^verbatim>\<open>sync\<close> would end the process (\<open>Some\<close> the error, with the state reached).
\<close>

definition init :: "'w \<Rightarrow> 'w state" where
  "init w = \<lparr>isSyncing = False, world = w, events = []\<rparr>"

fun ticks :: "nat \<Rightarrow> 'w env \<Rightarrow> 'w state \<Rightarrow> err option \<times> 'w state" where
  "ticks 0 E s = (None, s)"
| "ticks (Suc n) E s =
     (case sync E s of (Throw e, s1) \<Rightarrow> (Some e, s1) | (_, s1) \<Rightarrow> ticks n E s1)"

section \<open>Observing a run\<close>

text \<open>The events a run of \<open>f\<close> from \<open>s\<close> adds to the history.\<close>

definition produced :: "('a, 'w) stmt \<Rightarrow> 'w state \<Rightarrow> event list" where
  "produced f s = drop (length (events s)) (events (snd (f s)))"

text \<open>The git commands among some events, in the order they were issued.\<close>

fun calls :: "event list \<Rightarrow> cmd list" where
  "calls [] = []"
| "calls (Call c r # es) = c # calls es"
| "calls (e # es) = calls es"

text \<open>The git calls that threw.\<close>

fun failed :: "event \<Rightarrow> bool" where
  "failed (Call c (Inl e)) = True"
| "failed ev = False"

fun throws :: "'a completion \<Rightarrow> bool" where
  "throws (Throw e) = True"
| "throws c = False"

text \<open>
  The calls of the pull phase (fetch, stash, pull --rebase, stash pop) and of the push phase
  (add -u, commit, push). The queries \<^verbatim>\<open>status\<close> and \<^verbatim>\<open>rev-parse\<close> belong to neither.
\<close>

fun pull_call :: "cmd \<Rightarrow> bool" where
  "pull_call Fetch = True"
| "pull_call Stash = True"
| "pull_call PullRebase = True"
| "pull_call StashPop = True"
| "pull_call c = False"

fun push_call :: "cmd \<Rightarrow> bool" where
  "push_call AddU = True"
| "push_call (Commit m) = True"
| "push_call Push = True"
| "push_call c = False"

text \<open>No pull-phase call is issued after a push-phase call.\<close>

fun pull_before_push :: "cmd list \<Rightarrow> bool" where
  "pull_before_push [] = True"
| "pull_before_push (c # cs) =
     ((if push_call c then \<not> list_ex pull_call cs else True) \<and> pull_before_push cs)"

text \<open>The two warnings the script prints when an upstream query has answered "none".\<close>

definition no_upstream_warning :: "string \<Rightarrow> bool" where
  "no_upstream_warning m =
     (m \<in> set [''No upstream configured for current branch; skipping remote change check.'',
                ''No upstream configured for current branch. Configure one to enable syncing.''])"

text \<open>
  Every git call that threw is followed at once by a console line for it: a
  \<^verbatim>\<open>console.error\<close> that carries the thrown error, or, for the upstream query only (whose
  \<^verbatim>\<open>catch\<close> block drops the error and answers "none"), one of the no-upstream warnings.
\<close>

fun reported :: "cmd \<Rightarrow> err \<Rightarrow> event list \<Rightarrow> bool" where
  "reported c e (LogError m e' # es) = (e' = e)"
| "reported c e (Warn m # es) = (c = UpstreamRef \<and> no_upstream_warning m)"
| "reported c e es = False"

fun failures_logged :: "event list \<Rightarrow> bool" where
  "failures_logged [] = True"
| "failures_logged (Call c (Inl e) # es) = (reported c e es \<and> failures_logged es)"
| "failures_logged (ev # es) = failures_logged es"

text \<open>
  The same without the exception: the error of every git call that threw is carried by a
  \<^verbatim>\<open>console.error\<close> somewhere later among the events.
\<close>

fun error_line :: "err \<Rightarrow> event \<Rightarrow> bool" where
  "error_line e (LogError m e') = (e' = e)"
| "error_line e ev = False"

fun every_error_logged :: "event list \<Rightarrow> bool" where
  "every_error_logged [] = True"
| "every_error_logged (Call c (Inl e) # es) = (list_ex (error_line e) es \<and> every_error_logged es)"
| "every_error_logged (ev # es) = every_error_logged es"

text \<open>
  What a failed query leads to. The next git call among some events; the calls that a
  pull phase makes after its queries (stash, pull --rebase, stash pop).
\<close>

fun next_call :: "event list \<Rightarrow> cmd option" where
  "next_call [] = None"
| "next_call (Call c r # es) = Some c"
| "next_call (ev # es) = next_call es"

fun pull_step :: "cmd \<Rightarrow> bool" where
  "pull_step Stash = True"
| "pull_step PullRebase = True"
| "pull_step StashPop = True"
| "pull_step c = False"

definition no_pull_step :: "event list \<Rightarrow> bool" where
  "no_pull_step es = (\<not> list_ex pull_step (calls es))"

fun error_next :: "string \<Rightarrow> err \<Rightarrow> event list \<Rightarrow> bool" where
  "error_next m e (LogError m' e' # es) = (m' = m \<and> e' = e)"
| "error_next m e es = False"

fun warning_next :: "event list \<Rightarrow> bool" where
  "warning_next (Warn m # es) = no_upstream_warning m"
| "warning_next es = False"

text \<open>
  A failed query \<open>c\<close> with error \<open>e\<close>, followed by the events \<open>es\<close> of the rest of the cycle:
  \<^item> a failed status query is followed at once by its own \<^verbatim>\<open>console.error\<close>, and the next
    git call of the cycle, if there is one, is \<^verbatim>\<open>pull --rebase\<close> (never stash, add -u,
    commit or push);
  \<^item> a failed fetch or rev-parse is followed at once by its own \<^verbatim>\<open>console.error\<close>, and
    no stash, pull --rebase or stash pop is called in the rest of the cycle;
  \<^item> a failed upstream query is followed at once by a no-upstream warning, and no stash,
    pull --rebase or stash pop is called in the rest of the cycle.
\<close>

fun query_failure_handled :: "cmd \<Rightarrow> err \<Rightarrow> event list \<Rightarrow> bool" where
  "query_failure_handled Status e es =
     (error_next ''Failed to check local changes:'' e es \<and>
      (next_call es = None \<or> next_call es = Some PullRebase))"
| "query_failure_handled UpstreamRef e es = (warning_next es \<and> no_pull_step es)"
| "query_failure_handled Fetch e es =
     (error_next ''Failed to check remote changes:'' e es \<and> no_pull_step es)"
| "query_failure_handled RevParseHead e es =
     (error_next ''Failed to check remote changes:'' e es \<and> no_pull_step es)"
| "query_failure_handled RevParseUpstream e es =
     (error_next ''Failed to check remote changes:'' e es \<and> no_pull_step es)"
| "query_failure_handled c e es = True"

fun query_failures_handled :: "event list \<Rightarrow> bool" where
  "query_failures_handled [] = True"
| "query_failures_handled (Call c (Inl e) # es) =
     (query_failure_handled c e es \<and> query_failures_handled es)"
| "query_failures_handled (ev # es) = query_failures_handled es"

text \<open>
  Replaying a history against the lock: an acquisition must find the lock free, a release
  must find it held, a git call must be made under the lock. \<open>Some\<close> the final value of the
  lock when the whole history complies, \<open>None\<close> at the first violation.
\<close>

fun lock_run :: "bool \<Rightarrow> event list \<Rightarrow> bool option" where
  "lock_run held [] = Some held"
| "lock_run held (SetLock b # es) = (if b = held then None else lock_run b es)"
| "lock_run held (Call c r # es) = (if held then lock_run held es else None)"
| "lock_run held (ev # es) = lock_run held es"

text \<open>
  A stand-in for git whose world is the list of the outcomes still to come: each call takes
  the next one, whatever the command (an empty list answers with empty output).
\<close>

definition scripted :: "(err + string) list env" where
  "scripted =
     \<lparr>exec = (\<lambda>c w. case w of [] \<Rightarrow> (Inr [], []) | r # rs \<Rightarrow> (r, rs)),
      now = (\<lambda>w. ''2024-01-01T00:00:00.000Z''),
      GIT_AUTO_MESSAGE = None\<rparr>"

section \<open>Notions for the proofs\<close>

text \<open>
  Every run of \<open>f\<close> only appends events to the history, and \<open>Q\<close> holds of its completion
  and of the events it appended.
\<close>

definition post :: "('a, 'w) stmt \<Rightarrow> ('a completion \<Rightarrow> event list \<Rightarrow> bool) \<Rightarrow> bool" where
  "post f Q \<longleftrightarrow> (\<forall>s. \<exists>xs. events (snd (f s)) = events s @ xs \<and> Q (fst (f s)) xs)"

text \<open>Every event a run of \<open>f\<close> adds satisfies \<open>p\<close>.\<close>

definition only :: "(event \<Rightarrow> bool) \<Rightarrow> ('a, 'w) stmt \<Rightarrow> bool" where
  "only p f \<longleftrightarrow> post f (\<lambda>c xs. list_all p xs)"

text \<open>Events that are not a push-phase call, not a pull-phase call, not a lock assignment.\<close>

fun no_push :: "event \<Rightarrow> bool" where
  "no_push (Call c r) = (\<not> push_call c)"
| "no_push ev = True"

fun no_pull :: "event \<Rightarrow> bool" where
  "no_pull (Call c r) = (\<not> pull_call c)"
| "no_pull ev = True"

fun no_lock :: "event \<Rightarrow> bool" where
  "no_lock (SetLock b) = False"
| "no_lock ev = True"

text \<open>No run of \<open>f\<close> ends by a thrown error.\<close>

definition nothrow :: "('a, 'w) stmt \<Rightarrow> bool" where
  "nothrow f \<longleftrightarrow> (\<forall>s. \<not> throws (fst (f s)))"

text \<open>
  What a statement leaves behind: a run that throws \<open>e\<close> has logged everything but the last
  failure, which the line for \<open>e\<close> will report; any other run has logged everything.
\<close>

definition settled :: "'a completion \<Rightarrow> event list \<Rightarrow> bool" where
  "settled c xs =
     (case c of Throw e \<Rightarrow> failures_logged (xs @ [LogError [] e]) | _ \<Rightarrow> failures_logged xs)"

text \<open>Every run of \<open>f\<close> leaves its failures settled.\<close>

definition logs_failures :: "('a, 'w) stmt \<Rightarrow> bool" where
  "logs_failures f \<longleftrightarrow> post f settled"

text \<open>A run of the upstream query: one call, a returned value, \<open>None\<close> when the call threw.\<close>

definition upstream_answer :: "string option completion \<Rightarrow> event list \<Rightarrow> bool" where
  "upstream_answer c xs \<longleftrightarrow>
     (\<exists>r u. xs = [Call UpstreamRef r] \<and> c = Return u \<and> (failed (Call UpstreamRef r) \<longrightarrow> u = None))"

text \<open>In every run of \<open>f\<close> the pull-phase calls come before the push-phase calls.\<close>

definition ordered :: "('a, 'w) stmt \<Rightarrow> bool" where
  "ordered f \<longleftrightarrow> post f (\<lambda>c xs. pull_before_push (calls xs))"

text \<open>
  A run of the comparison of the two heads: it throws when one of its git calls threw, and
  returns a boolean otherwise.
\<close>

definition answered :: "bool completion \<Rightarrow> event list \<Rightarrow> bool" where
  "answered c xs \<longleftrightarrow> (if list_ex failed xs then throws c else (\<exists>b. c = Return b))"

text \<open>The last git call among the events is a status query that threw.\<close>

fun pending_status :: "event list \<Rightarrow> bool" where
  "pending_status [] = False"
| "pending_status (Call c r # es) =
     (if next_call es = None then c = Status \<and> failed (Call c r) else pending_status es)"
| "pending_status (ev # es) = pending_status es"

text \<open>A query of \<^verbatim>\<open>hasRemoteChanges\<close> or of \<^verbatim>\<open>getUpstreamRef\<close> that threw.\<close>

fun failed_remote :: "event \<Rightarrow> bool" where
  "failed_remote (Call UpstreamRef (Inl e)) = True"
| "failed_remote (Call Fetch (Inl e)) = True"
| "failed_remote (Call RevParseHead (Inl e)) = True"
| "failed_remote (Call RevParseUpstream (Inl e)) = True"
| "failed_remote ev = False"

text \<open>Events that are no git call.\<close>

fun no_call :: "event \<Rightarrow> bool" where
  "no_call (Call c r) = False"
| "no_call ev = True"

text \<open>What the runs of the two queries and of the two sub-procedures leave behind.\<close>

definition local_answer :: "bool completion \<Rightarrow> event list \<Rightarrow> bool" where
  "local_answer c xs \<longleftrightarrow>
     query_failures_handled xs \<and> no_pull_step xs \<and> \<not> list_ex failed_remote xs \<and>
     (c = Return False \<or> c = Return True \<and> \<not> pending_status xs)"

definition remote_answer :: "bool completion \<Rightarrow> event list \<Rightarrow> bool" where
  "remote_answer c xs \<longleftrightarrow>
     query_failures_handled xs \<and> no_pull_step xs \<and> \<not> pending_status xs \<and>
     (c = Return False \<or> c = Return True \<and> \<not> list_ex failed_remote xs)"

definition pull_side :: "unit completion \<Rightarrow> event list \<Rightarrow> bool" where
  "pull_side c xs \<longleftrightarrow>
     query_failures_handled xs \<and> \<not> pending_status xs \<and> \<not> list_ex failed_remote xs"

definition push_side :: "unit completion \<Rightarrow> event list \<Rightarrow> bool" where
  "push_side c xs \<longleftrightarrow>
     query_failures_handled xs \<and> no_pull_step xs \<and> \<not> list_ex failed_remote xs"

text \<open>Every failed query of a run of \<open>f\<close> is handled within the run.\<close>

definition handles :: "('a, 'w) stmt \<Rightarrow> bool" where
  "handles f \<longleftrightarrow> post f (\<lambda>c xs. query_failures_handled xs)"

text \<open>Worlds for \<open>scripted\<close>: the outcomes of the git calls of one run, in order.\<close>

definition both_changed :: "(err + string) list" where
  "both_changed =
     [Inr ''origin/main'', Inr ''origin/main'', Inr [], Inr ''a1'', Inr ''b2'',
      Inr '' M notes.md'', Inr [], Inr [], Inr [],
      Inr '' M notes.md'', Inr [], Inr ''M  notes.md'', Inr [], Inr []]"

definition pull_conflict :: "(err + string) list" where
  "pull_conflict =
     [Inr ''origin/main'', Inr ''origin/main'', Inr [], Inr ''a1'', Inr ''b2'',
      Inr [], Inl ''CONFLICT'',
      Inr ''UU notes.md'', Inr [], Inr ''M  notes.md'', Inr [], Inr []]"

definition stash_fails :: "(err + string) list" where
  "stash_fails =
     [Inr ''origin/main'', Inr ''origin/main'', Inr [], Inr ''a1'', Inr ''b2'',
      Inr '' M notes.md'', Inl ''cannot stash'']"

definition no_upstream :: "(err + string) list" where
  "no_upstream = [Inl ''fatal: no upstream configured for branch'']"

definition fetch_fails :: "(err + string) list" where
  "fetch_fails = [Inr ''origin/main'', Inl ''could not resolve host'']"

definition dirty_pull_conflict :: "(err + string) list" where
  "dirty_pull_conflict = [Inr '' M notes.md'', Inr [], Inl ''CONFLICT'', Inr []]"

definition not_a_repository :: "(err + string) list" where
  "not_a_repository = [Inl ''fatal: not a git repository'']"

definition status_fails_in_pull :: "(err + string) list" where
  "status_fails_in_pull =
     [Inr ''origin/main'', Inr ''origin/main'', Inr [], Inr ''a1'', Inr ''b2'',
      Inl ''fatal: unable to read index'', Inr [], Inr []]"

definition untracked_only :: "(err + string) list" where
  "untracked_only =
     [Inr [], Inr (''?? draft.txt'' @ [CHR 0x0A]),
      Inl ''nothing added to commit but untracked files present'']"

section \<open>Postconditions on the completion and the events of a run\<close>

lemma postD:
  assumes "post f Q" and "f s = (c, s1)"
  obtains xs where "events s1 = events s @ xs" and "Q c xs"
  using assms unfolding post_def by (metis fst_conv snd_conv)

lemma postI:
  assumes "\<And>s c s1. f s = (c, s1) \<Longrightarrow> \<exists>xs. events s1 = events s @ xs \<and> Q c xs"
  shows "post f Q"
  unfolding post_def
proof
  fix s
  obtain c s1 where "f s = (c, s1)" by (cases "f s")
  with assms[OF this] show "\<exists>xs. events (snd (f s)) = events s @ xs \<and> Q (fst (f s)) xs"
    by simp
qed

lemma post_produced:
  assumes "post f Q"
  shows "events (snd (f s)) = events s @ produced f s" and "Q (fst (f s)) (produced f s)"
proof -
  obtain c s1 where fs: "f s = (c, s1)" by (cases "f s")
  from postD[OF assms fs] obtain xs where "events s1 = events s @ xs" "Q c xs" .
  with fs show "events (snd (f s)) = events s @ produced f s" and "Q (fst (f s)) (produced f s)"
    by (simp_all add: produced_def)
qed

lemma post_weaken:
  assumes "post f Q" and "\<And>c xs. Q c xs \<Longrightarrow> Q' c xs"
  shows "post f Q'"
  using assms unfolding post_def by blast

lemma post_skip: "Q Normal [] \<Longrightarrow> post skip Q"
  by (simp add: post_def skip_def)

lemma post_ret: "Q (Return v) [] \<Longrightarrow> post (ret v) Q"
  by (simp add: post_def ret_def)

lemma post_console_log: "Q Normal [Log m] \<Longrightarrow> post (console_log m) Q"
  by (simp add: post_def console_log_def emit_def)

lemma post_console_warn: "Q Normal [Warn m] \<Longrightarrow> post (console_warn m) Q"
  by (simp add: post_def console_warn_def emit_def)

lemma post_console_error: "Q Normal [LogError m e] \<Longrightarrow> post (console_error m e) Q"
  by (simp add: post_def console_error_def emit_def)

lemma post_set_isSyncing: "Q Normal [SetLock b] \<Longrightarrow> post (set_isSyncing b) Q"
  by (simp add: post_def set_isSyncing_def emit_def)

lemma post_git:
  assumes "\<And>e. Q (Throw e) [Call c (Inl e)]" and "\<And>out. Q Normal [Call c (Inr out)]"
  shows "post (git E c :: ('a, 'w) stmt) Q"
proof (rule postI)
  fix s :: "'w state" and c' :: "'a completion" and s1
  assume run: "git E c s = (c', s1)"
  obtain r w where ex: "exec E c (world s) = (r, w)" by (cases "exec E c (world s)")
  show "\<exists>xs. events s1 = events s @ xs \<and> Q c' xs"
    using run ex assms by (cases r) (auto simp: git_def runGit_def emit_def)
qed

lemma post_git_bind:
  assumes "\<And>e. Q (Throw e) [Call c (Inl e)]"
    and "\<And>out. post (k out) (Qk out)"
    and "\<And>out c' zs. Qk out c' zs \<Longrightarrow> Q c' (Call c (Inr out) # zs)"
  shows "post (git_bind E c k :: ('a, 'w) stmt) Q"
proof (rule postI)
  fix s :: "'w state" and c' :: "'a completion" and s1
  assume run: "git_bind E c k s = (c', s1)"
  obtain r w where ex: "exec E c (world s) = (r, w)" by (cases "exec E c (world s)")
  show "\<exists>xs. events s1 = events s @ xs \<and> Q c' xs"
  proof (cases r)
    case (Inl e)
    with run ex assms(1) show ?thesis by (auto simp: git_bind_def runGit_def emit_def)
  next
    case (Inr out)
    with run ex have "k out (emit (Call c r) (s\<lparr>world := w\<rparr>)) = (c', s1)"
      by (simp add: git_bind_def runGit_def)
    from postD[OF assms(2) this] obtain zs
      where "events s1 = events (emit (Call c r) (s\<lparr>world := w\<rparr>)) @ zs" "Qk out c' zs" .
    with assms(3) Inr show ?thesis by (auto simp: emit_def)
  qed
qed

lemma post_seq:
  assumes "post a Qa" and "post b Qb"
    and "\<And>ys c zs. Qa Normal ys \<Longrightarrow> Qb c zs \<Longrightarrow> Q c (ys @ zs)"
    and "\<And>c ys. c \<noteq> Normal \<Longrightarrow> Qa c ys \<Longrightarrow> Q c ys"
  shows "post (seq a b) Q"
proof (rule postI)
  fix s c' s2
  assume run: "seq a b s = (c', s2)"
  obtain c s1 where as: "a s = (c, s1)" by (cases "a s")
  from postD[OF assms(1) as] obtain ys where ys: "events s1 = events s @ ys" "Qa c ys" .
  show "\<exists>xs. events s2 = events s @ xs \<and> Q c' xs"
  proof (cases "c = Normal")
    case True
    with run as have "b s1 = (c', s2)" by (simp add: seq_def)
    from postD[OF assms(2) this] obtain zs where "events s2 = events s1 @ zs" "Qb c' zs" .
    with ys True assms(3) show ?thesis by auto
  next
    case False
    with run as have "c' = c" "s2 = s1" by (cases c; simp add: seq_def)+
    with ys False assms(4) show ?thesis by auto
  qed
qed

lemma post_try_catch:
  assumes "post a Qa" and "\<And>e. post (h e) (Qh e)"
    and "\<And>e ys c zs. Qa (Throw e) ys \<Longrightarrow> Qh e c zs \<Longrightarrow> Q c (ys @ zs)"
    and "\<And>c ys. \<not> throws c \<Longrightarrow> Qa c ys \<Longrightarrow> Q c ys"
  shows "post (try_catch a h) Q"
proof (rule postI)
  fix s c' s2
  assume run: "try_catch a h s = (c', s2)"
  obtain c s1 where as: "a s = (c, s1)" by (cases "a s")
  from postD[OF assms(1) as] obtain ys where ys: "events s1 = events s @ ys" "Qa c ys" .
  show "\<exists>xs. events s2 = events s @ xs \<and> Q c' xs"
  proof (cases c)
    case (Throw e)
    with run as have "h e s1 = (c', s2)" by (simp add: try_catch_def)
    from postD[OF assms(2) this] obtain zs where "events s2 = events s1 @ zs" "Qh e c' zs" .
    with ys Throw assms(3) show ?thesis by auto
  next
    case Normal
    with run as have "c' = c" "s2 = s1" by (simp_all add: try_catch_def)
    with ys Normal assms(4) show ?thesis by auto
  next
    case (Return v)
    with run as have "c' = c" "s2 = s1" by (simp_all add: try_catch_def)
    with ys Return assms(4) show ?thesis by auto
  qed
qed

lemma post_try_finally:
  assumes "post a Qa" and "post f Qf"
    and "\<And>c ys zs. Qa c ys \<Longrightarrow> Qf Normal zs \<Longrightarrow> Q c (ys @ zs)"
    and "\<And>c ys c' zs. c' \<noteq> Normal \<Longrightarrow> Qa c ys \<Longrightarrow> Qf c' zs \<Longrightarrow> Q c' (ys @ zs)"
  shows "post (try_finally a f) Q"
proof (rule postI)
  fix s c' s2
  assume run: "try_finally a f s = (c', s2)"
  obtain c s1 where as: "a s = (c, s1)" by (cases "a s")
  from postD[OF assms(1) as] obtain ys where ys: "events s1 = events s @ ys" "Qa c ys" .
  obtain d t where fs: "f s1 = (d, t)" by (cases "f s1")
  from postD[OF assms(2) fs] obtain zs where zs: "events t = events s1 @ zs" "Qf d zs" .
  show "\<exists>xs. events s2 = events s @ xs \<and> Q c' xs"
  proof (cases "d = Normal")
    case True
    with run as fs have "c' = c" "s2 = t" by (simp_all add: try_finally_def)
    with ys zs True assms(3) show ?thesis by auto
  next
    case False
    with run as fs have "c' = d" "s2 = t" by (cases d; simp add: try_finally_def)+
    with ys zs False assms(4) show ?thesis by auto
  qed
qed

lemma post_call:
  assumes "post f Qf" and "\<And>v. post (k v) (Qk v)"
    and "\<And>v ys c zs. Qf (Return v) ys \<Longrightarrow> Qk v c zs \<Longrightarrow> Q c (ys @ zs)"
    and "\<And>ys c zs. Qf Normal ys \<Longrightarrow> Qk u c zs \<Longrightarrow> Q c (ys @ zs)"
    and "\<And>e ys. Qf (Throw e) ys \<Longrightarrow> Q (Throw e) ys"
  shows "post (call f u k) Q"
proof (rule postI)
  fix s c' s2
  assume run: "call f u k s = (c', s2)"
  obtain c s1 where fs: "f s = (c, s1)" by (cases "f s")
  from postD[OF assms(1) fs] obtain ys where ys: "events s1 = events s @ ys" "Qf c ys" .
  show "\<exists>xs. events s2 = events s @ xs \<and> Q c' xs"
  proof (cases c)
    case (Throw e)
    with run fs have "c' = Throw e" "s2 = s1" by (simp_all add: call_def)
    with ys Throw assms(5) show ?thesis by auto
  next
    case Normal
    with run fs have "k u s1 = (c', s2)" by (simp add: call_def)
    from postD[OF assms(2) this] obtain zs where "events s2 = events s1 @ zs" "Qk u c' zs" .
    with ys Normal assms(4) show ?thesis by auto
  next
    case (Return v)
    with run fs have "k v s1 = (c', s2)" by (simp add: call_def)
    from postD[OF assms(2) this] obtain zs where "events s2 = events s1 @ zs" "Qk v c' zs" .
    with ys Return assms(3) show ?thesis by auto
  qed
qed

lemma post_call_void:
  assumes "post f Qf"
    and "\<And>e ys. Qf (Throw e) ys \<Longrightarrow> Q (Throw e) ys"
    and "\<And>ys. Qf Normal ys \<Longrightarrow> Q Normal ys"
    and "\<And>v ys. Qf (Return v) ys \<Longrightarrow> Q Normal ys"
  shows "post (call_void f :: ('b, 'w) stmt) Q"
proof (rule postI)
  fix s :: "'w state" and c' :: "'b completion" and s2
  assume run: "call_void f s = (c', s2)"
  obtain c s1 where fs: "f s = (c, s1)" by (cases "f s")
  from postD[OF assms(1) fs] obtain ys where ys: "events s1 = events s @ ys" "Qf c ys" .
  show "\<exists>xs. events s2 = events s @ xs \<and> Q c' xs"
    using run fs ys assms(2,3,4) by (cases c) (auto simp: call_void_def)
qed

lemma post_read_clock: "(\<And>t. post (k t) Q) \<Longrightarrow> post (read_clock E k) Q"
  by (simp add: post_def read_clock_def)

lemma post_state_if: "post a Q \<Longrightarrow> post b Q \<Longrightarrow> post (\<lambda>s. if P s then a s else b s) Q"
  by (simp add: post_def)

section \<open>Events of one kind only\<close>

lemma only_skip: "only p skip"
  unfolding only_def by (rule post_skip) simp

lemma only_ret: "only p (ret v)"
  unfolding only_def by (rule post_ret) simp

lemma only_console_log: "p (Log m) \<Longrightarrow> only p (console_log m)"
  unfolding only_def by (rule post_console_log) simp

lemma only_console_warn: "p (Warn m) \<Longrightarrow> only p (console_warn m)"
  unfolding only_def by (rule post_console_warn) simp

lemma only_console_error: "p (LogError m e) \<Longrightarrow> only p (console_error m e)"
  unfolding only_def by (rule post_console_error) simp

lemma only_set_isSyncing: "p (SetLock b) \<Longrightarrow> only p (set_isSyncing b)"
  unfolding only_def by (rule post_set_isSyncing) simp

lemma only_git: "(\<And>r. p (Call c r)) \<Longrightarrow> only p (git E c)"
  unfolding only_def by (rule post_git) simp_all

lemma only_git_bind:
  assumes "\<And>r. p (Call c r)" and "\<And>out. only p (k out)"
  shows "only p (git_bind E c k)"
  unfolding only_def
  by (rule post_git_bind[where Qk = "\<lambda>out c xs. list_all p xs"])
    (use assms in \<open>simp_all add: only_def\<close>)

lemma only_seq: "only p a \<Longrightarrow> only p b \<Longrightarrow> only p (seq a b)"
  unfolding only_def by (erule (1) post_seq) simp_all

lemma only_try_catch:
  assumes "only p a" and "\<And>e. only p (h e)"
  shows "only p (try_catch a h)"
  unfolding only_def
  by (rule post_try_catch[where Qa = "\<lambda>c xs. list_all p xs" and Qh = "\<lambda>e c xs. list_all p xs"])
    (use assms in \<open>simp_all add: only_def\<close>)

lemma only_try_finally: "only p a \<Longrightarrow> only p f \<Longrightarrow> only p (try_finally a f)"
  unfolding only_def by (erule (1) post_try_finally) simp_all

lemma only_call:
  assumes "only p f" and "\<And>v. only p (k v)"
  shows "only p (call f u k)"
  unfolding only_def
  by (rule post_call[where Qf = "\<lambda>c xs. list_all p xs" and Qk = "\<lambda>v c xs. list_all p xs"])
    (use assms in \<open>simp_all add: only_def\<close>)

lemma only_call_void: "only p f \<Longrightarrow> only p (call_void f)"
  unfolding only_def by (erule post_call_void) simp_all

lemma only_read_clock: "(\<And>t. only p (k t)) \<Longrightarrow> only p (read_clock E k)"
  unfolding only_def by (rule post_read_clock)

lemma only_if: "only p a \<Longrightarrow> only p b \<Longrightarrow> only p (if c then a else b)"
  by simp

lemma only_state_if: "only p a \<Longrightarrow> only p b \<Longrightarrow> only p (\<lambda>s. if P s then a s else b s)"
  unfolding only_def by (rule post_state_if)

lemmas only_intros = only_skip only_ret only_console_log only_console_warn only_console_error
  only_set_isSyncing only_git only_git_bind only_seq only_try_catch only_try_finally only_call
  only_call_void only_read_clock only_if

lemma hasLocalChanges_no_push: "only no_push (hasLocalChanges E)"
  unfolding hasLocalChanges_def by (intro only_intros) simp_all
lemma hasLocalChanges_no_pull: "only no_pull (hasLocalChanges E)"
  unfolding hasLocalChanges_def by (intro only_intros) simp_all
lemma hasLocalChanges_no_lock: "only no_lock (hasLocalChanges E)"
  unfolding hasLocalChanges_def by (intro only_intros) simp_all
lemma getUpstreamRef_no_push: "only no_push (getUpstreamRef E)"
  unfolding getUpstreamRef_def by (intro only_intros) simp_all
lemma getUpstreamRef_no_lock: "only no_lock (getUpstreamRef E)"
  unfolding getUpstreamRef_def by (intro only_intros) simp_all
lemma hasRemoteChanges_no_push: "only no_push (hasRemoteChanges E)"
  unfolding hasRemoteChanges_def by (intro only_intros getUpstreamRef_no_push) simp_all
lemma hasRemoteChanges_no_lock: "only no_lock (hasRemoteChanges E)"
  unfolding hasRemoteChanges_def by (intro only_intros getUpstreamRef_no_lock) simp_all
lemma syncFromOrigin_no_push: "only no_push (syncFromOrigin E)"
  unfolding syncFromOrigin_def by (intro only_intros hasLocalChanges_no_push) simp_all
lemma syncFromOrigin_no_lock: "only no_lock (syncFromOrigin E)"
  unfolding syncFromOrigin_def by (intro only_intros hasLocalChanges_no_lock) simp_all
lemma syncToOrigin_no_pull: "only no_pull (syncToOrigin E)"
  unfolding syncToOrigin_def Let_def by (intro only_intros hasLocalChanges_no_pull) simp_all
lemma syncToOrigin_no_lock: "only no_lock (syncToOrigin E)"
  unfolding syncToOrigin_def Let_def by (intro only_intros hasLocalChanges_no_lock) simp_all

section \<open>The lock around a cycle\<close>

lemma cycle_events:
  assumes "only no_lock a"
  shows "post (seq (set_isSyncing True) (try_finally a (set_isSyncing False)))
           (\<lambda>c xs. \<exists>ys. xs = SetLock True # ys @ [SetLock False] \<and> list_all no_lock ys)"
proof -
  have set: "post (set_isSyncing b) (\<lambda>c xs. c = Normal \<and> xs = [SetLock b])" for b
    by (rule post_set_isSyncing) simp
  have "post (try_finally a (set_isSyncing False))
          (\<lambda>c xs. \<exists>ys. xs = ys @ [SetLock False] \<and> list_all no_lock ys)"
    by (rule post_try_finally[OF assms[unfolded only_def] set]) simp_all
  with set show ?thesis
    by (rule post_seq) auto
qed

lemma cycle_unlocks:
  "\<not> isSyncing (snd (seq (set_isSyncing True) (try_finally a (set_isSyncing False)) s))"
  by (simp add: seq_def try_finally_def set_isSyncing_def emit_def
      split: prod.splits completion.splits)

lemma count_no_lock: "list_all no_lock xs \<Longrightarrow> count_list xs (SetLock b) = 0"
  by (induction xs) auto

section \<open>No error escapes\<close>

lemma nothrow_skip: "nothrow skip" by (simp add: nothrow_def skip_def)
lemma nothrow_ret: "nothrow (ret v)" by (simp add: nothrow_def ret_def)
lemma nothrow_console_log: "nothrow (console_log m)" by (simp add: nothrow_def console_log_def)
lemma nothrow_console_warn: "nothrow (console_warn m)" by (simp add: nothrow_def console_warn_def)
lemma nothrow_console_error: "nothrow (console_error m e)"
  by (simp add: nothrow_def console_error_def)
lemma nothrow_set_isSyncing: "nothrow (set_isSyncing b)"
  by (simp add: nothrow_def set_isSyncing_def)

lemma nothrow_seq:
  assumes "nothrow a" and "nothrow b"
  shows "nothrow (seq a b)"
  unfolding nothrow_def
proof
  fix s
  obtain c s1 where as: "a s = (c, s1)" by (cases "a s")
  with assms(1) have "\<not> throws c" by (metis fst_conv nothrow_def)
  moreover have "\<not> throws (fst (b s1))" using assms(2) by (simp add: nothrow_def)
  ultimately show "\<not> throws (fst (seq a b s))"
    using as by (cases c) (simp_all add: seq_def)
qed

lemma nothrow_try_catch:
  assumes "\<And>e. nothrow (h e)"
  shows "nothrow (try_catch a h)"
  unfolding nothrow_def
proof
  fix s
  obtain c s1 where as: "a s = (c, s1)" by (cases "a s")
  have "\<not> throws (fst (h e s1))" for e using assms by (simp add: nothrow_def)
  then show "\<not> throws (fst (try_catch a h s))"
    using as by (cases c) (simp_all add: try_catch_def)
qed

lemma nothrow_try_finally:
  assumes "nothrow a" and "nothrow f"
  shows "nothrow (try_finally a f)"
  unfolding nothrow_def
proof
  fix s
  obtain c s1 where as: "a s = (c, s1)" by (cases "a s")
  with assms(1) have c: "\<not> throws c" by (metis fst_conv nothrow_def)
  obtain d s2 where fs: "f s1 = (d, s2)" by (cases "f s1")
  with assms(2) have "\<not> throws d" by (metis fst_conv nothrow_def)
  with c show "\<not> throws (fst (try_finally a f s))"
    using as fs by (cases d) (simp_all add: try_finally_def)
qed

lemma nothrow_state_if: "nothrow a \<Longrightarrow> nothrow b \<Longrightarrow> nothrow (\<lambda>s. if P s then a s else b s)"
  by (simp add: nothrow_def)

lemmas nothrow_intros = nothrow_skip nothrow_ret nothrow_console_log nothrow_console_warn
  nothrow_console_error nothrow_set_isSyncing nothrow_seq nothrow_try_catch nothrow_try_finally

lemma sync_nothrow: "nothrow (sync E)"
  unfolding sync_def[abs_def] by (intro nothrow_state_if nothrow_intros)

lemma hasLocalChanges_nothrow: "nothrow (hasLocalChanges E)"
  unfolding hasLocalChanges_def by (intro nothrow_intros)

lemma hasRemoteChanges_nothrow: "nothrow (hasRemoteChanges E)"
  unfolding hasRemoteChanges_def by (intro nothrow_intros)

section \<open>Failures and their console lines\<close>

lemma reported_append: "reported c e es \<Longrightarrow> reported c e (es @ ys)"
  by (induction c e es rule: reported.induct) simp_all

lemma failures_logged_append:
  "failures_logged xs \<Longrightarrow> failures_logged ys \<Longrightarrow> failures_logged (xs @ ys)"
  by (induction xs rule: failures_logged.induct) (simp_all add: reported_append)

lemma reported_pending:
  "reported c e' (es @ [LogError m e]) \<Longrightarrow> reported c e' (es @ LogError m' e # zs)"
  by (induction c e' es rule: reported.induct) simp_all

lemma failures_logged_pending:
  "failures_logged (xs @ [LogError m e]) \<Longrightarrow> failures_logged zs \<Longrightarrow>
   failures_logged (xs @ LogError m' e # zs)"
  by (induction xs rule: failures_logged.induct) (auto intro: reported_pending)

lemma settled_Throw: "settled (Throw e) xs = failures_logged (xs @ [LogError [] e])"
  by (simp add: settled_def)

lemma settled_other: "\<not> throws c \<Longrightarrow> settled c xs = failures_logged xs"
  by (cases c) (simp_all add: settled_def)

lemma settled_append: "failures_logged ys \<Longrightarrow> settled c zs \<Longrightarrow> settled c (ys @ zs)"
  by (cases c) (simp_all add: settled_def failures_logged_append)

lemma settled_caught:
  "settled (Throw e) ys \<Longrightarrow> settled c zs \<Longrightarrow> settled c (ys @ LogError m e # zs)"
  by (cases c) (simp_all add: settled_def failures_logged_pending)

lemma logs_skip: "logs_failures skip"
  unfolding logs_failures_def by (rule post_skip) (simp add: settled_def)
lemma logs_ret: "logs_failures (ret v)"
  unfolding logs_failures_def by (rule post_ret) (simp add: settled_def)
lemma logs_console_log: "logs_failures (console_log m)"
  unfolding logs_failures_def by (rule post_console_log) (simp add: settled_def)
lemma logs_console_warn: "logs_failures (console_warn m)"
  unfolding logs_failures_def by (rule post_console_warn) (simp add: settled_def)
lemma logs_console_error: "logs_failures (console_error m e)"
  unfolding logs_failures_def by (rule post_console_error) (simp add: settled_def)
lemma logs_set_isSyncing: "logs_failures (set_isSyncing b)"
  unfolding logs_failures_def by (rule post_set_isSyncing) (simp add: settled_def)
lemma logs_git: "logs_failures (git E c)"
  unfolding logs_failures_def by (rule post_git) (simp_all add: settled_def)

lemma logs_git_bind:
  assumes "\<And>out. logs_failures (k out)"
  shows "logs_failures (git_bind E c k)"
proof -
  have k: "\<And>out. post (k out) settled" using assms by (simp add: logs_failures_def)
  show ?thesis
    unfolding logs_failures_def
    by (rule post_git_bind[OF _ k]) (simp_all add: settled_def split: completion.splits)
qed

lemma logs_seq:
  assumes "logs_failures a" and "logs_failures b"
  shows "logs_failures (seq a b)"
  unfolding logs_failures_def
  by (rule post_seq[OF assms[unfolded logs_failures_def]])
    (simp_all add: settled_append settled_other)

lemma logs_try_catch_log:
  assumes "logs_failures a" and "\<And>e. logs_failures (k e)"
  shows "logs_failures (try_catch a (\<lambda>e. seq (console_error m e) (k e)))"
proof -
  have line: "post (console_error m e) (\<lambda>c xs. c = Normal \<and> xs = [LogError m e])" for e
    by (rule post_console_error) simp
  have k: "post (k e) settled" for e using assms(2) by (simp add: logs_failures_def)
  have h: "post (seq (console_error m e) (k e))
             (\<lambda>c xs. \<exists>zs. xs = LogError m e # zs \<and> settled c zs)" for e
    by (rule post_seq[OF line k]) simp_all
  show ?thesis
    unfolding logs_failures_def
    by (rule post_try_catch[OF assms(1)[unfolded logs_failures_def] h])
      (auto simp: settled_caught)
qed

lemma logs_try_catch_line:
  assumes "logs_failures a"
  shows "logs_failures (try_catch a (console_error m))"
proof -
  have line: "post (console_error m e) (\<lambda>c xs. c = Normal \<and> xs = [LogError m e])" for e
    by (rule post_console_error) simp
  show ?thesis
    unfolding logs_failures_def
    by (rule post_try_catch[OF assms(1)[unfolded logs_failures_def] line])
      (auto simp: settled_def failures_logged_pending[where zs = "[]"])
qed

lemma post_nothrow:
  assumes "post f Q" and "nothrow f"
  shows "post f (\<lambda>c xs. Q c xs \<and> \<not> throws c)"
  using assms unfolding post_def nothrow_def by blast

lemma logs_try_finally:
  assumes "logs_failures a" and "nothrow a" and "logs_failures f"
  shows "logs_failures (try_finally a f)"
  unfolding logs_failures_def
  by (rule post_try_finally[OF post_nothrow[OF assms(1)[unfolded logs_failures_def] assms(2)]
        assms(3)[unfolded logs_failures_def]])
    (auto simp: settled_other settled_append failures_logged_append)

lemma logs_call:
  assumes "logs_failures f" and "\<And>v. logs_failures (k v)"
  shows "logs_failures (call f u k)"
proof -
  have k: "\<And>v. post (k v) settled" using assms(2) by (simp add: logs_failures_def)
  show ?thesis
    unfolding logs_failures_def
    by (rule post_call[OF assms(1)[unfolded logs_failures_def] k])
      (simp_all add: settled_append settled_other settled_Throw)
qed

lemma logs_call_void:
  assumes "logs_failures f"
  shows "logs_failures (call_void f)"
  unfolding logs_failures_def
  by (rule post_call_void[OF assms[unfolded logs_failures_def]])
    (simp_all add: settled_Throw settled_other)

lemma logs_read_clock: "(\<And>t. logs_failures (k t)) \<Longrightarrow> logs_failures (read_clock E k)"
  unfolding logs_failures_def by (rule post_read_clock)

lemma logs_if: "logs_failures a \<Longrightarrow> logs_failures b \<Longrightarrow> logs_failures (if c then a else b)"
  by simp

lemma logs_state_if:
  "logs_failures a \<Longrightarrow> logs_failures b \<Longrightarrow> logs_failures (\<lambda>s. if P s then a s else b s)"
  unfolding logs_failures_def by (rule post_state_if)

lemmas logs_intros = logs_skip logs_ret logs_console_log logs_console_warn logs_console_error
  logs_set_isSyncing logs_git logs_git_bind logs_seq logs_try_catch_log logs_try_catch_line
  logs_try_finally logs_call logs_call_void logs_read_clock logs_if

lemma hasLocalChanges_logs: "logs_failures (hasLocalChanges E)"
  unfolding hasLocalChanges_def by (intro logs_intros)

lemma syncFromOrigin_logs: "logs_failures (syncFromOrigin E)"
  unfolding syncFromOrigin_def by (intro logs_intros nothrow_intros hasLocalChanges_logs)

lemma syncToOrigin_logs: "logs_failures (syncToOrigin E)"
  unfolding syncToOrigin_def Let_def by (intro logs_intros nothrow_intros hasLocalChanges_logs)

text \<open>The upstream query: one call, never an error, and \<open>None\<close> when the call failed.\<close>

lemma getUpstreamRef_eq:
  "getUpstreamRef E s =
     (case exec E UpstreamRef (world s) of
        (Inr out, w) \<Rightarrow>
          (Return (if trim out = [] then None else Some (trim out)),
           s\<lparr>world := w, events := events s @ [Call UpstreamRef (Inr out)]\<rparr>)
      | (Inl e, w) \<Rightarrow>
          (Return None, s\<lparr>world := w, events := events s @ [Call UpstreamRef (Inl e)]\<rparr>))"
  by (simp add: getUpstreamRef_def try_catch_def git_bind_def runGit_def emit_def ret_def
      split: prod.splits sum.splits)

lemma getUpstreamRef_post: "post (getUpstreamRef E) upstream_answer"
  unfolding post_def upstream_answer_def
  by (simp add: getUpstreamRef_eq split: prod.splits sum.splits)

lemma settled_Cons: "\<not> failed ev \<Longrightarrow> settled c (ev # zs) = settled c zs"
  by (cases ev rule: failed.cases; cases c) (simp_all add: settled_def)

lemma settled_upstream_warned:
  "no_upstream_warning m \<Longrightarrow> settled c (Call UpstreamRef r # Warn m # zs) = settled c zs"
  by (cases r; cases c) (simp_all add: settled_def)

lemma logs_call_upstream:
  assumes "\<And>u. logs_failures (x u)" and "\<And>u. logs_failures (k u)"
    and "no_upstream_warning m"
  shows "logs_failures
           (call (getUpstreamRef E) None
              (\<lambda>u. if falsy u then seq (console_warn m) (x u) else k u))"
proof -
  let ?Qk = "\<lambda>u c zs. if falsy u then \<exists>zs'. zs = Warn m # zs' \<and> settled c zs' else settled c zs"
  have line: "post (console_warn m) (\<lambda>c xs. c = Normal \<and> xs = [Warn m])"
    by (rule post_console_warn) simp
  have warned: "post (seq (console_warn m) (x u)) (\<lambda>c zs. \<exists>zs'. zs = Warn m # zs' \<and> settled c zs')"
    for u
    by (rule post_seq[OF line assms(1)[unfolded logs_failures_def]]) simp_all
  have k: "post (if falsy u then seq (console_warn m) (x u) else k u) (?Qk u)" for u
    using warned[of u] assms(2)[of u] by (simp add: logs_failures_def)
  show ?thesis
    unfolding logs_failures_def
  proof (rule post_call[OF getUpstreamRef_post k])
    fix v ys c zs
    assume "upstream_answer (Return v) ys" and "?Qk v c zs"
    then show "settled c (ys @ zs)"
      by (cases "falsy v")
        (auto simp: upstream_answer_def settled_upstream_warned[OF assms(3)] settled_Cons
          falsy_def)
  qed (simp_all add: upstream_answer_def)
qed

lemma hasRemoteChanges_logs: "logs_failures (hasRemoteChanges E)"
  unfolding hasRemoteChanges_def
  by (intro logs_call_upstream logs_intros) (simp add: no_upstream_warning_def)

lemma sync_logs: "logs_failures (sync E)"
  unfolding sync_def[abs_def]
  by (intro logs_state_if logs_call_upstream logs_intros nothrow_intros hasRemoteChanges_logs
      hasLocalChanges_logs syncFromOrigin_logs syncToOrigin_logs)
    (simp add: no_upstream_warning_def)

section \<open>Pull before push\<close>

lemma calls_append: "calls (xs @ ys) = calls xs @ calls ys"
  by (induction xs rule: calls.induct) simp_all

lemma pull_before_push_append:
  "pull_before_push (xs @ ys) \<longleftrightarrow>
     pull_before_push xs \<and> pull_before_push ys \<and>
     (list_ex push_call xs \<longrightarrow> \<not> list_ex pull_call ys)"
  by (induction xs) (auto simp: list_ex_iff)

lemma no_push_calls: "list_all no_push xs \<Longrightarrow> \<not> list_ex push_call (calls xs)"
  by (induction xs rule: calls.induct) simp_all

lemma no_pull_calls: "list_all no_pull xs \<Longrightarrow> \<not> list_ex pull_call (calls xs)"
  by (induction xs rule: calls.induct) simp_all

lemma pull_before_push_no_push: "\<not> list_ex push_call cs \<Longrightarrow> pull_before_push cs"
  by (induction cs) simp_all

lemma pull_before_push_no_pull: "\<not> list_ex pull_call cs \<Longrightarrow> pull_before_push cs"
  by (induction cs) simp_all

lemma ordered_after_pull: "list_all no_push ys \<Longrightarrow> pull_before_push (calls zs) \<Longrightarrow>
    pull_before_push (calls (ys @ zs))"
  by (simp add: calls_append pull_before_push_append no_push_calls pull_before_push_no_push)

lemma ordered_before_push: "pull_before_push (calls ys) \<Longrightarrow> list_all no_pull zs \<Longrightarrow>
    pull_before_push (calls (ys @ zs))"
  by (simp add: calls_append pull_before_push_append no_pull_calls pull_before_push_no_pull)

lemma ordered_push_side: "only no_pull f \<Longrightarrow> ordered f"
  unfolding only_def ordered_def
  by (erule post_weaken) (simp add: no_pull_calls pull_before_push_no_pull)

lemma ordered_seq:
  assumes "only no_push a" and "ordered b"
  shows "ordered (seq a b)"
  unfolding ordered_def
  by (rule post_seq[OF assms(1)[unfolded only_def] assms(2)[unfolded ordered_def]])
    (simp_all add: ordered_after_pull no_push_calls pull_before_push_no_push)

lemma ordered_call:
  assumes "only no_push f" and "\<And>v. ordered (k v)"
  shows "ordered (call f u k)"
proof -
  have k: "\<And>v. post (k v) (\<lambda>c xs. pull_before_push (calls xs))"
    using assms(2) by (simp add: ordered_def)
  show ?thesis
    unfolding ordered_def
    by (rule post_call[OF assms(1)[unfolded only_def] k])
      (simp_all add: ordered_after_pull no_push_calls pull_before_push_no_push)
qed

lemma ordered_try_catch:
  assumes "ordered a" and "\<And>e. only no_pull (h e)"
  shows "ordered (try_catch a h)"
proof -
  have h: "\<And>e. post (h e) (\<lambda>c xs. list_all no_pull xs)"
    using assms(2) by (simp add: only_def)
  show ?thesis
    unfolding ordered_def
    by (rule post_try_catch[OF assms(1)[unfolded ordered_def] h])
      (simp_all add: ordered_before_push)
qed

lemma ordered_try_finally:
  assumes "ordered a" and "only no_pull f"
  shows "ordered (try_finally a f)"
  unfolding ordered_def
  by (rule post_try_finally[OF assms(1)[unfolded ordered_def] assms(2)[unfolded only_def]])
    (simp_all add: ordered_before_push)

lemma ordered_if: "ordered a \<Longrightarrow> ordered b \<Longrightarrow> ordered (if c then a else b)"
  by simp

lemma ordered_state_if: "ordered a \<Longrightarrow> ordered b \<Longrightarrow> ordered (\<lambda>s. if P s then a s else b s)"
  unfolding ordered_def by (rule post_state_if)

lemma ordered_console_log: "ordered (console_log m)"
  by (rule ordered_push_side) (simp add: only_console_log)

lemma ordered_ret: "ordered (ret v)"
  by (rule ordered_push_side) (rule only_ret)

lemma ordered_skip: "ordered skip"
  by (rule ordered_push_side) (rule only_skip)

lemma ordered_call_void: "only no_pull f \<Longrightarrow> ordered (call_void f)"
  by (rule ordered_push_side) (rule only_call_void)

lemma sync_ordered: "ordered (sync E)"
  unfolding sync_def[abs_def]
  by (intro ordered_state_if ordered_seq ordered_try_finally ordered_try_catch ordered_call
      ordered_if ordered_console_log ordered_call_void ordered_ret ordered_skip
      only_intros getUpstreamRef_no_push hasRemoteChanges_no_push hasLocalChanges_no_push
      syncFromOrigin_no_push syncToOrigin_no_pull)
    simp_all

section \<open>One cycle\<close>

lemma cycle_shape:
  assumes "only no_lock a"
  shows "\<exists>ys. drop (length (events s))
            (events (snd (seq (set_isSyncing True) (try_finally a (set_isSyncing False)) s))) =
              SetLock True # ys @ [SetLock False] \<and>
          list_all no_lock ys \<and>
          events (snd (seq (set_isSyncing True) (try_finally a (set_isSyncing False)) s)) =
            events s @ SetLock True # ys @ [SetLock False] \<and>
          \<not> isSyncing (snd (seq (set_isSyncing True) (try_finally a (set_isSyncing False)) s))"
proof -
  let ?f = "seq (set_isSyncing True) (try_finally a (set_isSyncing False))"
  from post_produced[OF cycle_events[OF assms], of s] obtain ys
    where "events (snd (?f s)) = events s @ produced ?f s"
      and "produced ?f s = SetLock True # ys @ [SetLock False]" and "list_all no_lock ys"
    by auto
  then show ?thesis
    using cycle_unlocks[of a s] by (auto simp: produced_def)
qed

lemma sync_cycle:
  assumes "\<not> isSyncing s"
  shows "\<exists>ys. produced (sync E) s = SetLock True # ys @ [SetLock False] \<and>
          list_all no_lock ys \<and>
          events (snd (sync E s)) = events s @ SetLock True # ys @ [SetLock False] \<and>
          \<not> isSyncing (snd (sync E s))"
  unfolding produced_def sync_def if_not_P[OF assms]
  by (rule cycle_shape)
    (intro only_intros getUpstreamRef_no_lock hasRemoteChanges_no_lock hasLocalChanges_no_lock
      syncFromOrigin_no_lock syncToOrigin_no_lock; simp)

lemma sync_locked:
  assumes "isSyncing s"
  shows "sync E s = (Return (), s\<lparr>events := events s @ [Log ''Sync already in progress, skipping...'']\<rparr>)"
  using assms by (simp add: sync_def seq_def console_log_def ret_def emit_def)

section \<open>The scheduler\<close>

lemma lock_run_append:
  "lock_run b (xs @ ys) = (case lock_run b xs of None \<Rightarrow> None | Some b' \<Rightarrow> lock_run b' ys)"
  by (induction b xs rule: lock_run.induct) simp_all

lemma lock_run_no_lock: "list_all no_lock ys \<Longrightarrow> lock_run True ys = Some True"
proof (induction ys)
  case Nil
  then show ?case by simp
next
  case (Cons ev ys)
  then show ?case by (cases ev) simp_all
qed

lemma sync_keeps_lock_discipline:
  assumes "\<not> isSyncing s" and "lock_run False (events s) = Some False"
  shows "\<not> isSyncing (snd (sync E s)) \<and> lock_run False (events (snd (sync E s))) = Some False"
proof -
  from sync_cycle[OF assms(1), of E] obtain ys
    where "events (snd (sync E s)) = events s @ SetLock True # ys @ [SetLock False]"
      and "list_all no_lock ys" and "\<not> isSyncing (snd (sync E s))"
    by auto
  then show ?thesis
    using assms(2) by (simp add: lock_run_append lock_run_no_lock)
qed

lemma ticks_keep_lock_discipline:
  "\<not> isSyncing s \<Longrightarrow> lock_run False (events s) = Some False \<Longrightarrow>
   \<not> isSyncing (snd (ticks n E s)) \<and> lock_run False (events (snd (ticks n E s))) = Some False"
proof (induction n arbitrary: s)
  case 0
  then show ?case by simp
next
  case (Suc n)
  obtain c s1 where run: "sync E s = (c, s1)" by (cases "sync E s")
  from sync_keeps_lock_discipline[OF Suc.prems, of E] run
  have s1: "\<not> isSyncing s1" "lock_run False (events s1) = Some False" by simp_all
  from sync_nothrow[of E] run have "\<not> throws c" by (metis fst_conv nothrow_def)
  then have "ticks (Suc n) E s = ticks n E s1" using run by (cases c) simp_all
  with Suc.IH[OF s1] show ?case by simp
qed

lemma ticks_never_crash: "fst (ticks n E s) = None"
proof (induction n arbitrary: s)
  case 0
  then show ?case by simp
next
  case (Suc n)
  obtain c s1 where run: "sync E s = (c, s1)" by (cases "sync E s")
  from sync_nothrow[of E] run have "\<not> throws c" by (metis fst_conv nothrow_def)
  then have "ticks (Suc n) E s = ticks n E s1" using run by (cases c) simp_all
  with Suc.IH show ?case by simp
qed

section \<open>The two queries\<close>

lemma hasLocalChanges_eq:
  "hasLocalChanges E s =
     (case exec E Status (world s) of
        (Inr out, w) \<Rightarrow>
          (Return (0 < length (trim out)),
           s\<lparr>world := w, events := events s @ [Call Status (Inr out)]\<rparr>)
      | (Inl e, w) \<Rightarrow>
          (Return False,
           s\<lparr>world := w,
             events := events s @
               [Call Status (Inl e), LogError ''Failed to check local changes:'' e]\<rparr>))"
  by (simp add: hasLocalChanges_def try_catch_def git_bind_def runGit_def emit_def ret_def
      seq_def console_error_def split: prod.splits sum.splits)

lemma compare_heads_answered:
  "post (seq (git E Fetch)
          (git_bind E RevParseHead (\<lambda>localHead.
           git_bind E RevParseUpstream (\<lambda>remoteHead.
           ret (trim localHead \<noteq> trim remoteHead)))))
     answered"
proof -
  have fetch: "post (git E Fetch)
      (\<lambda>c xs. if list_ex failed xs then throws c else c = (Normal :: bool completion))"
    by (rule post_git) simp_all
  have cmp: "post (ret (trim l \<noteq> trim r)) answered" for l r
    by (rule post_ret) (simp add: answered_def)
  have remote: "post (git_bind E RevParseUpstream (\<lambda>r. ret (trim l \<noteq> trim r))) answered" for l
    by (rule post_git_bind[OF _ cmp]) (simp_all add: answered_def)
  have heads: "post (git_bind E RevParseHead (\<lambda>l.
      git_bind E RevParseUpstream (\<lambda>r. ret (trim l \<noteq> trim r)))) answered"
    by (rule post_git_bind[OF _ remote]) (simp_all add: answered_def)
  show ?thesis
    by (rule post_seq[OF fetch heads]) (auto simp: answered_def split: if_splits)
qed

lemma hasRemoteChanges_answer:
  fixes E :: "'w env"
  shows "post (hasRemoteChanges E)
     (\<lambda>c xs. (\<exists>b. c = Return b) \<and> (list_ex failed xs \<longrightarrow> c = Return False))"
proof -
  let ?m = "''No upstream configured for current branch; skipping remote change check.''"
  let ?k = "\<lambda>upstream. if falsy upstream then seq (console_warn ?m) (ret False)
     else seq (git E Fetch)
          (git_bind E RevParseHead (\<lambda>localHead.
           git_bind E RevParseUpstream (\<lambda>remoteHead.
           ret (trim localHead \<noteq> trim remoteHead))))"
  have warn: "post (console_warn ?m :: (bool, 'w) stmt) (\<lambda>c xs. c = Normal \<and> \<not> list_ex failed xs)"
    by (rule post_console_warn) simp
  have no: "post (seq (console_warn ?m) (ret False) :: (bool, 'w) stmt) (\<lambda>c xs. c = Return False \<and> \<not> list_ex failed xs)"
    by (rule post_seq[OF warn post_ret[where Q = "\<lambda>c xs. c = Return False \<and> xs = []"]]) simp_all
  have k: "post (?k u)
      (\<lambda>c xs. if falsy u then c = Return False \<and> \<not> list_ex failed xs else answered c xs)" for u
    using no compare_heads_answered[of E] by simp
  have inner: "post (call (getUpstreamRef E) None ?k)
      (\<lambda>c xs. c = Return False \<or> answered c xs)"
    by (rule post_call[OF getUpstreamRef_post k])
      (auto simp: upstream_answer_def answered_def falsy_def split: if_splits)
  have handler: "post
      (seq (console_error ''Failed to check remote changes:'' e) (ret False) :: (bool, 'w) stmt)
      (\<lambda>c xs. c = Return False)" for e
    by (rule post_seq[OF post_console_error[where Q = "\<lambda>c xs. c = Normal"]
          post_ret[where Q = "\<lambda>c xs. c = Return False"]]) simp_all
  show ?thesis
    unfolding hasRemoteChanges_def
    by (rule post_try_catch[OF inner handler])
      (auto simp: answered_def split: if_splits)
qed

section \<open>What a failed query leads to\<close>

lemma next_call_append:
  "next_call (xs @ ys) = (case next_call xs of None \<Rightarrow> next_call ys | Some c \<Rightarrow> Some c)"
  by (induction xs rule: next_call.induct) simp_all

lemma pending_status_no_call: "next_call es = None \<Longrightarrow> \<not> pending_status es"
  by (induction es rule: next_call.induct) simp_all

lemma pending_status_after_no_call:
  "next_call es = None \<Longrightarrow> pending_status (es @ ys) = pending_status ys"
  by (induction es rule: next_call.induct) simp_all

lemma pending_status_append:
  "pending_status (xs @ ys) = (if next_call ys = None then pending_status xs else pending_status ys)"
proof (induction xs)
  case Nil
  then show ?case by (simp add: pending_status_no_call)
next
  case (Cons ev xs)
  then show ?case
    by (cases ev)
      (auto simp: next_call_append pending_status_no_call pending_status_after_no_call
        split: option.splits)
qed

lemma pending_status_Cons: "pending_status es \<Longrightarrow> pending_status (ev # es)"
  by (cases ev) (auto simp: pending_status_no_call)

lemma query_failures_handled_tail: "query_failures_handled (ev # es) \<Longrightarrow> query_failures_handled es"
  by (cases "(ev # es)" rule: query_failures_handled.cases) simp_all

lemma no_pull_step_append: "no_pull_step (xs @ ys) \<longleftrightarrow> no_pull_step xs \<and> no_pull_step ys"
  by (auto simp: no_pull_step_def calls_append)

lemma error_next_append: "error_next m e es \<Longrightarrow> error_next m e (es @ zs)"
  by (induction m e es rule: error_next.induct) simp_all

lemma warning_next_append: "warning_next es \<Longrightarrow> warning_next (es @ zs)"
  by (induction es rule: warning_next.induct) simp_all

lemma query_failure_handled_append:
  assumes "query_failure_handled c e es"
    and "c = Status \<Longrightarrow> next_call es = None \<Longrightarrow>
           next_call zs = None \<or> next_call zs = Some PullRebase"
    and "failed_remote (Call c (Inl e)) \<Longrightarrow> no_pull_step zs"
  shows "query_failure_handled c e (es @ zs)"
  using assms
  by (cases c)
    (auto simp: next_call_append no_pull_step_append error_next_append warning_next_append
      split: option.splits)

lemma query_failures_handled_append:
  assumes "query_failures_handled ys" and "query_failures_handled zs"
    and "pending_status ys \<Longrightarrow> next_call zs = None \<or> next_call zs = Some PullRebase"
    and "list_ex failed_remote ys \<Longrightarrow> no_pull_step zs"
  shows "query_failures_handled (ys @ zs)"
  using assms
proof (induction ys)
  case Nil
  then show ?case by simp
next
  case (Cons ev es)
  have rest: "query_failures_handled (es @ zs)"
  proof (rule Cons.IH)
    show "query_failures_handled es" using Cons.prems(1) by (rule query_failures_handled_tail)
    show "query_failures_handled zs" by (rule Cons.prems(2))
    show "next_call zs = None \<or> next_call zs = Some PullRebase" if "pending_status es"
      using Cons.prems(3) pending_status_Cons[OF that] by simp
    show "no_pull_step zs" if "list_ex failed_remote es" using that Cons.prems(4) by simp
  qed
  show ?case
  proof (cases "\<exists>c e. ev = Call c (Inl e)")
    case True
    then obtain c e where ev: "ev = Call c (Inl e)" by auto
    have "query_failure_handled c e (es @ zs)"
    proof (rule query_failure_handled_append)
      show "query_failure_handled c e es" using Cons.prems(1) ev by simp
      show "next_call zs = None \<or> next_call zs = Some PullRebase"
        if "c = Status" "next_call es = None"
        using that Cons.prems(3) ev by simp
      show "no_pull_step zs" if "failed_remote (Call c (Inl e))"
        using that Cons.prems(4) ev by simp
    qed
    with rest ev show ?thesis by simp
  next
    case False
    with rest show ?thesis
      by (cases "(ev # es @ zs)" rule: query_failures_handled.cases) auto
  qed
qed

lemma no_call_events:
  assumes "list_all no_call xs"
  shows "next_call xs = None" and "calls xs = []" and "query_failures_handled xs"
    and "\<not> pending_status xs" and "\<not> list_ex failed_remote xs" and "no_pull_step xs"
proof -
  show 1: "next_call xs = None" using assms
    by (induction xs rule: next_call.induct) simp_all
  show 2: "calls xs = []" using assms
    by (induction xs rule: calls.induct) simp_all
  show "query_failures_handled xs" using assms
    by (induction xs rule: query_failures_handled.induct) simp_all
  show "\<not> pending_status xs" using 1 by (rule pending_status_no_call)
  show "\<not> list_ex failed_remote xs" using assms
    by (induction xs rule: calls.induct) simp_all
  show "no_pull_step xs" using 2 by (simp add: no_pull_step_def)
qed

lemmas run_defs = seq_def try_catch_def try_finally_def call_def call_void_def ret_def skip_def
  console_log_def console_warn_def console_error_def git_def git_bind_def runGit_def emit_def
  read_clock_def

lemma hasLocalChanges_handled: "post (hasLocalChanges E) local_answer"
  unfolding post_def
proof
  fix s :: "'a state"
  obtain r w where "exec E Status (world s) = (r, w)" by (cases "exec E Status (world s)")
  then show "\<exists>xs. events (snd (hasLocalChanges E s)) = events s @ xs \<and>
      local_answer (fst (hasLocalChanges E s)) xs"
    by (cases r) (simp_all add: hasLocalChanges_eq local_answer_def no_pull_step_def)
qed

lemma hasRemoteChanges_handled: "post (hasRemoteChanges E) remote_answer"
  unfolding post_def
proof
  fix s :: "'a state"
  obtain r1 w1 where 1: "exec E UpstreamRef (world s) = (r1, w1)"
    by (cases "exec E UpstreamRef (world s)")
  obtain r2 w2 where 2: "exec E Fetch w1 = (r2, w2)" by (cases "exec E Fetch w1")
  obtain r3 w3 where 3: "exec E RevParseHead w2 = (r3, w3)" by (cases "exec E RevParseHead w2")
  obtain r4 w4 where 4: "exec E RevParseUpstream w3 = (r4, w4)"
    by (cases "exec E RevParseUpstream w3")
  show "\<exists>xs. events (snd (hasRemoteChanges E s)) = events s @ xs \<and>
      remote_answer (fst (hasRemoteChanges E s)) xs"
    using 1 2 3 4
    by (cases r1; cases r2; cases r3; cases r4)
      (simp_all add: hasRemoteChanges_def getUpstreamRef_eq run_defs falsy_def remote_answer_def
        no_pull_step_def no_upstream_warning_def)
qed

lemma syncFromOrigin_handled: "post (syncFromOrigin E) pull_side"
  unfolding post_def
proof
  fix s :: "'a state"
  obtain r1 w1 where 1: "exec E Status (world s) = (r1, w1)" by (cases "exec E Status (world s)")
  obtain r2 w2 where 2: "exec E Stash w1 = (r2, w2)" by (cases "exec E Stash w1")
  obtain r3 w3 where 3: "exec E PullRebase w1 = (r3, w3)" by (cases "exec E PullRebase w1")
  obtain r4 w4 where 4: "exec E PullRebase w2 = (r4, w4)" by (cases "exec E PullRebase w2")
  obtain r5 w5 where 5: "exec E StashPop w4 = (r5, w5)" by (cases "exec E StashPop w4")
  show "\<exists>xs. events (snd (syncFromOrigin E s)) = events s @ xs \<and>
      pull_side (fst (syncFromOrigin E s)) xs"
    using 1 2 3 4 5
    by (cases r1; cases r2; cases r3; cases r4; cases r5)
      (simp_all add: syncFromOrigin_def hasLocalChanges_eq run_defs pull_side_def)
qed

lemma syncToOrigin_handled: "post (syncToOrigin E) push_side"
  unfolding post_def
proof
  fix s :: "'a state"
  obtain r1 w1 where 1: "exec E AddU (world s) = (r1, w1)" by (cases "exec E AddU (world s)")
  obtain r2 w2 where 2: "exec E Status w1 = (r2, w2)" by (cases "exec E Status w1")
  obtain r3 w3 where 3: "exec E (Commit (commit_message E (now E w2))) w2 = (r3, w3)"
    by (cases "exec E (Commit (commit_message E (now E w2))) w2")
  obtain r4 w4 where 4: "exec E Push w3 = (r4, w4)" by (cases "exec E Push w3")
  show "\<exists>xs. events (snd (syncToOrigin E s)) = events s @ xs \<and>
      push_side (fst (syncToOrigin E s)) xs"
    using 1 2 3 4
    by (cases r1; cases r2; cases r3; cases r4)
      (simp_all add: syncToOrigin_def hasLocalChanges_eq run_defs push_side_def Let_def
        no_pull_step_def)
qed

lemma handled_then_no_call:
  "query_failures_handled ys \<Longrightarrow> list_all no_call zs \<Longrightarrow> query_failures_handled (ys @ zs)"
  by (rule query_failures_handled_append) (simp_all add: no_call_events)

lemma no_call_then_handled:
  "list_all no_call ys \<Longrightarrow> query_failures_handled zs \<Longrightarrow> query_failures_handled (ys @ zs)"
  by (rule query_failures_handled_append) (simp_all add: no_call_events)

lemma handles_ret: "handles (ret v)"
  unfolding handles_def by (rule post_ret) simp

lemma handles_seq_left:
  assumes "only no_call a" and "handles b"
  shows "handles (seq a b)"
  unfolding handles_def
  by (rule post_seq[OF assms(1)[unfolded only_def] assms(2)[unfolded handles_def]])
    (simp_all add: no_call_then_handled no_call_events)

lemma handles_try_catch:
  assumes "handles a" and "\<And>e. only no_call (h e)"
  shows "handles (try_catch a h)"
proof -
  have h: "\<And>e. post (h e) (\<lambda>c xs. list_all no_call xs)"
    using assms(2) by (simp add: only_def)
  show ?thesis
    unfolding handles_def
    by (rule post_try_catch[OF assms(1)[unfolded handles_def] h])
      (simp_all add: handled_then_no_call)
qed

lemma handles_try_finally:
  assumes "handles a" and "only no_call f"
  shows "handles (try_finally a f)"
  unfolding handles_def
  by (rule post_try_finally[OF assms(1)[unfolded handles_def] assms(2)[unfolded only_def]])
    (simp_all add: handled_then_no_call)

lemma handles_state_if: "handles a \<Longrightarrow> handles b \<Longrightarrow> handles (\<lambda>s. if P s then a s else b s)"
  unfolding handles_def by (rule post_state_if)

lemma handled_upstream_warned:
  "no_upstream_warning m \<Longrightarrow> list_all no_call zs \<Longrightarrow>
   query_failures_handled (Call UpstreamRef r # Warn m # zs)"
  by (cases r) (simp_all add: no_call_events no_pull_step_def)

lemma handled_upstream_answered:
  "query_failures_handled zs \<Longrightarrow> query_failures_handled (Call UpstreamRef (Inr out) # zs)"
  by simp

lemma handles_upstream:
  assumes "\<And>u. only no_call (x u)" and "\<And>u. handles (k u)" and "no_upstream_warning m"
  shows "handles (call (getUpstreamRef E) None
           (\<lambda>u. if falsy u then seq (console_warn m) (x u) else k u))"
proof -
  let ?Qk = "\<lambda>u c zs. if falsy u then \<exists>zs'. zs = Warn m # zs' \<and> list_all no_call zs'
     else query_failures_handled zs"
  have line: "post (console_warn m) (\<lambda>c xs. c = Normal \<and> xs = [Warn m])"
    by (rule post_console_warn) simp
  have warned: "post (seq (console_warn m) (x u))
      (\<lambda>c zs. \<exists>zs'. zs = Warn m # zs' \<and> list_all no_call zs')" for u
    by (rule post_seq[OF line assms(1)[unfolded only_def]]) simp_all
  have k: "post (if falsy u then seq (console_warn m) (x u) else k u) (?Qk u)" for u
    using warned[of u] assms(2)[of u] by (simp add: handles_def)
  show ?thesis
    unfolding handles_def
  proof (rule post_call[OF getUpstreamRef_post k])
    fix v ys c zs
    assume "upstream_answer (Return v) ys" and "?Qk v c zs"
    then show "query_failures_handled (ys @ zs)"
      using assms(3)
      by (cases "falsy v")
        (auto simp: upstream_answer_def falsy_def handled_upstream_warned no_call_events
          elim!: failed.elims)
  qed (simp_all add: upstream_answer_def)
qed

lemma remote_gate:
  assumes "post q remote_answer" and "post p pull_side"
  shows "post (call q False (\<lambda>r. if r then call_void p else skip))
     (\<lambda>c xs. query_failures_handled xs \<and> \<not> pending_status xs \<and>
        (list_ex failed_remote xs \<longrightarrow> no_pull_step xs))"
proof -
  let ?Qk = "\<lambda>r c zs. if r then query_failures_handled zs \<and> \<not> pending_status zs \<and>
      \<not> list_ex failed_remote zs else zs = []"
  have pull: "post (call_void p) (?Qk True)"
    by (rule post_call_void[OF assms(2)]) (simp_all add: pull_side_def)
  have skip: "post skip (?Qk False)" by (rule post_skip) simp
  have k: "post (if r then call_void p else skip) (?Qk r)" for r
    using pull skip by (cases r) simp_all
  show ?thesis
  proof (rule post_call[OF assms(1) k])
    fix v ys c zs
    assume "remote_answer (Return v) ys" and "?Qk v c zs"
    then show "query_failures_handled (ys @ zs) \<and> \<not> pending_status (ys @ zs) \<and>
        (list_ex failed_remote (ys @ zs) \<longrightarrow> no_pull_step (ys @ zs))"
      by (cases v)
        (auto simp: remote_answer_def pending_status_append
          intro!: query_failures_handled_append)
  qed (simp_all add: remote_answer_def)
qed

lemma local_gate:
  assumes "post q local_answer" and "only no_call a" and "post p push_side"
    and "only no_call b"
  shows "post (call q False (\<lambda>l. if l then seq a (call_void p) else b))
     (\<lambda>c xs. query_failures_handled xs \<and> no_pull_step xs \<and> \<not> list_ex failed_remote xs)"
proof -
  let ?Qk = "\<lambda>l c zs. if l then query_failures_handled zs \<and> no_pull_step zs \<and>
      \<not> list_ex failed_remote zs else list_all no_call zs"
  have push: "post (call_void p)
      (\<lambda>c zs. query_failures_handled zs \<and> no_pull_step zs \<and> \<not> list_ex failed_remote zs)"
    by (rule post_call_void[OF assms(3)]) (simp_all add: push_side_def)
  have entered: "post (seq a (call_void p)) (?Qk True)"
    by (rule post_seq[OF assms(2)[unfolded only_def] push])
      (simp_all add: no_call_then_handled no_call_events no_pull_step_append)
  have k: "post (if l then seq a (call_void p) else b) (?Qk l)" for l
    using entered assms(4) by (cases l) (simp_all add: only_def)
  show ?thesis
  proof (rule post_call[OF assms(1) k])
    fix v ys c zs
    assume "local_answer (Return v) ys" and "?Qk v c zs"
    then show "query_failures_handled (ys @ zs) \<and> no_pull_step (ys @ zs) \<and>
        \<not> list_ex failed_remote (ys @ zs)"
      by (cases v)
        (auto simp: local_answer_def no_pull_step_append no_call_events
          intro!: query_failures_handled_append)
  qed (simp_all add: local_answer_def)
qed

lemma handles_phases:
  assumes "post q remote_answer" and "post p pull_side" and "post q' local_answer"
    and "only no_call a" and "post p' push_side" and "only no_call b"
  shows "handles (seq (call q False (\<lambda>r. if r then call_void p else skip))
                      (call q' False (\<lambda>l. if l then seq a (call_void p') else b)))"
  unfolding handles_def
  by (rule post_seq[OF remote_gate[OF assms(1,2)] local_gate[OF assms(3,4,5,6)]])
    (auto intro!: query_failures_handled_append)

lemma sync_handles: "handles (sync E)"
  unfolding sync_def[abs_def]
  by (intro handles_state_if handles_phases handles_upstream handles_try_catch
      handles_try_finally handles_seq_left handles_ret
      hasRemoteChanges_handled syncFromOrigin_handled hasLocalChanges_handled
      syncToOrigin_handled only_intros)
    (simp_all add: no_upstream_warning_def)

section \<open>The claims\<close>

text \<open>
  C1. A cycle that takes the lock (it did not find \<^verbatim>\<open>isSyncing\<close> set) ends with the lock
  free, however it ends, and releases it exactly once. And every tick of the process is
  such a cycle: after any number of ticks from the start the lock is free.
\<close>

theorem lock_released_once:
  assumes "\<not> isSyncing s"
  shows "\<not> isSyncing (snd (sync E s)) \<and>
         count_list (produced (sync E) s) (SetLock False) = 1 \<and>
         \<not> isSyncing (snd (ticks n E (init w)))"
proof -
  from sync_cycle[OF assms, of E] obtain ys
    where "produced (sync E) s = SetLock True # ys @ [SetLock False]"
      and "list_all no_lock ys" and "\<not> isSyncing (snd (sync E s))"
    by auto
  moreover have "\<not> isSyncing (snd (ticks n E (init w)))"
    using ticks_keep_lock_discipline[of "init w" n E] by (simp add: init_def)
  ultimately show ?thesis by (simp add: count_no_lock)
qed

theorem lock_released_once_witness:
  "\<not> isSyncing (init stash_fails) \<and>
   \<not> isSyncing (snd (sync scripted (init stash_fails))) \<and>
   count_list (produced (sync scripted) (init stash_fails)) (SetLock False) = 1 \<and>
   \<not> isSyncing (snd (ticks 2 scripted (init stash_fails)))"
  using lock_released_once[of "init stash_fails" scripted 2 stash_fails] by (simp add: init_def)

text \<open>
  C2. After a failed \<^verbatim>\<open>pull --rebase\<close> the cycle goes on to the push phase: run on
  \<open>pull_conflict\<close>, it stages, commits and pushes after the pull has thrown.
\<close>

theorem push_phase_after_failed_pull:
  "produced (sync scripted) (init pull_conflict) =
     [SetLock True,
      Call UpstreamRef (Inr ''origin/main''),
      Call UpstreamRef (Inr ''origin/main''),
      Call Fetch (Inr []),
      Call RevParseHead (Inr ''a1''),
      Call RevParseUpstream (Inr ''b2''),
      Log ''Pulling changes from upstream...'',
      Call Status (Inr []),
      Call PullRebase (Inl ''CONFLICT''),
      LogError ''Error pulling from upstream. Manual intervention may be required:'' ''CONFLICT'',
      Call Status (Inr ''UU notes.md''),
      Log ''Local changes detected, pushing to upstream...'',
      Log ''Adding changes...'',
      Call AddU (Inr []),
      Call Status (Inr ''M  notes.md''),
      Log ''Committing changes...'',
      Call (Commit ''Automated commit at 2024-01-01T00:00:00.000Z'') (Inr []),
      Log ''Pushing changes to upstream...'',
      Call Push (Inr []),
      Log ''Committed & pushed at 2024-01-01T00:00:00.000Z'',
      SetLock False]"
  by code_simp

text \<open>
  C3. After a failed \<^verbatim>\<open>pull --rebase\<close> the \<^verbatim>\<open>finally\<close> block still runs
  \<^verbatim>\<open>stash pop\<close>: run on \<open>dirty_pull_conflict\<close>, the pull sub-procedure pops the stash
  after the pull has thrown.
\<close>

theorem stash_pop_after_failed_pull:
  "produced (syncFromOrigin scripted) (init dirty_pull_conflict) =
     [Log ''Pulling changes from upstream...'',
      Call Status (Inr '' M notes.md''),
      Log ''Stashing local changes...'',
      Call Stash (Inr []),
      Call PullRebase (Inl ''CONFLICT''),
      LogError ''Error pulling from upstream. Manual intervention may be required:'' ''CONFLICT'',
      Log ''Restoring stashed changes...'',
      Call StashPop (Inr [])]"
  by code_simp

text \<open>
  C4. When the status after \<^verbatim>\<open>add -u\<close> lists untracked files only, the re-check still
  answers "changes" and the push sub-procedure calls \<^verbatim>\<open>commit\<close>: run on
  \<open>untracked_only\<close>, the commit is attempted and its failure is thrown.
\<close>

theorem commit_with_untracked_only:
  "fst (syncToOrigin scripted (init untracked_only)) =
     Throw ''nothing added to commit but untracked files present'' \<and>
   produced (syncToOrigin scripted) (init untracked_only) =
     [Log ''Adding changes...'',
      Call AddU (Inr []),
      Call Status (Inr (''?? draft.txt'' @ [CHR 0x0A])),
      Log ''Committing changes...'',
      Call (Commit ''Automated commit at 2024-01-01T00:00:00.000Z'')
        (Inl ''nothing added to commit but untracked files present'')]"
  by code_simp

text \<open>
  C5. A call of \<^verbatim>\<open>sync\<close> that finds the lock held logs the skip and returns: no git call,
  nothing else changed. And over any number of ticks from the start of the process, every
  acquisition finds the lock free, every release finds it held, and every git call is made
  under the lock: cycles never overlap.
\<close>

theorem skip_when_locked:
  assumes "isSyncing s"
  shows "sync E s =
           (Return (), s\<lparr>events := events s @ [Log ''Sync already in progress, skipping...'']\<rparr>) \<and>
         calls (produced (sync E) s) = [] \<and>
         lock_run False (events (snd (ticks n E (init w)))) = Some False"
proof -
  have "\<not> isSyncing (init w)" "lock_run False (events (init w)) = Some False"
    by (simp_all add: init_def)
  from ticks_keep_lock_discipline[OF this]
  have "lock_run False (events (snd (ticks n E (init w)))) = Some False" by simp
  then show ?thesis
    using sync_locked[OF assms, of E] by (simp add: produced_def)
qed

theorem skip_when_locked_witness:
  "isSyncing \<lparr>isSyncing = True, world = both_changed, events = []\<rparr> \<and>
   sync scripted \<lparr>isSyncing = True, world = both_changed, events = []\<rparr> =
     (Return (), \<lparr>isSyncing = True, world = both_changed,
        events = [Log ''Sync already in progress, skipping...'']\<rparr>) \<and>
   calls (produced (sync scripted) \<lparr>isSyncing = True, world = both_changed, events = []\<rparr>) = [] \<and>
   lock_run False (events (snd (ticks 2 scripted (init both_changed)))) = Some False"
  using skip_when_locked[of "\<lparr>isSyncing = True, world = both_changed, events = []\<rparr>"
      scripted 2 both_changed]
  by simp

text \<open>
  C6. As stated the claim fails: when the upstream query throws ("not a git repository"),
  \<^verbatim>\<open>getUpstreamRef\<close> drops the error and the cycle writes the no-upstream warning only, so
  no console line carries that error.
\<close>

theorem upstream_failure_not_logged:
  "produced (sync scripted) (init not_a_repository) =
     [SetLock True,
      Call UpstreamRef (Inl ''fatal: not a git repository''),
      Warn ''No upstream configured for current branch. Configure one to enable syncing.'',
      SetLock False] \<and>
   \<not> every_error_logged (produced (sync scripted) (init not_a_repository))"
  by code_simp

text \<open>
  C6, amended. No error escapes \<^verbatim>\<open>sync\<close>, and the scheduler is never ended by an error,
  however many ticks it runs. Every git call that threw during the call is followed at once
  by a console line: a \<^verbatim>\<open>console.error\<close> that carries its error, except for the upstream
  query, whose error is dropped and whose failure is followed by a no-upstream warning.
\<close>

theorem no_error_escapes:
  "\<not> throws (fst (sync E s)) \<and> failures_logged (produced (sync E) s) \<and> fst (ticks n E s) = None"
proof -
  have "\<not> throws (fst (sync E s))" using sync_nothrow[of E] by (simp add: nothrow_def)
  moreover from this post_produced(2)[OF sync_logs[unfolded logs_failures_def], of E s]
  have "failures_logged (produced (sync E) s)" by (simp add: settled_other)
  ultimately show ?thesis by (simp add: ticks_never_crash)
qed

theorem no_error_escapes_witness:
  "list_ex failed (produced (sync scripted) (init stash_fails)) \<and>
   \<not> throws (fst (sync scripted (init stash_fails))) \<and>
   failures_logged (produced (sync scripted) (init stash_fails)) \<and>
   fst (ticks 3 scripted (init stash_fails)) = None"
proof -
  have "list_ex failed (produced (sync scripted) (init stash_fails))" by code_simp
  then show ?thesis using no_error_escapes[of scripted "init stash_fails" 3] by simp
qed

text \<open>
  C7. When \<^verbatim>\<open>hasLocalChanges()\<close> is false as the pull sub-procedure is entered, the
  sub-procedure calls neither \<^verbatim>\<open>stash\<close> nor \<^verbatim>\<open>stash pop\<close>.
\<close>

theorem no_spurious_stash:
  assumes "fst (hasLocalChanges E s) = Return False"
  shows "Stash \<notin> set (calls (produced (syncFromOrigin E) s)) \<and>
         StashPop \<notin> set (calls (produced (syncFromOrigin E) s))"
proof -
  let ?s0 = "emit (Log ''Pulling changes from upstream...'') s"
  obtain c s1 where q: "hasLocalChanges E ?s0 = (c, s1)" by (cases "hasLocalChanges E ?s0")
  have c: "c = Return False"
    using assms q by (auto simp: hasLocalChanges_eq emit_def split: prod.splits sum.splits)
  from postD[OF hasLocalChanges_no_pull[unfolded only_def] q] obtain xs
    where xs: "events s1 = events ?s0 @ xs" "list_all no_pull xs" .
  obtain r w where ex: "exec E PullRebase (world s1) = (r, w)"
    by (cases "exec E PullRebase (world s1)")
  have "\<exists>ys. events (snd (syncFromOrigin E s)) = events s1 @ ys \<and> calls ys = [PullRebase]"
    using q c ex
    by (cases r)
      (simp_all add: syncFromOrigin_def seq_def console_log_def call_def skip_def try_finally_def
        try_catch_def git_def runGit_def console_error_def ret_def emit_def)
  then obtain ys
    where "events (snd (syncFromOrigin E s)) = events s1 @ ys" "calls ys = [PullRebase]"
    by auto
  with xs have "calls (produced (syncFromOrigin E) s) = calls xs @ [PullRebase]"
    by (simp add: produced_def emit_def calls_append)
  moreover have "Stash \<notin> set (calls xs)" "StashPop \<notin> set (calls xs)"
    using no_pull_calls[OF xs(2)] by (auto simp: list_ex_iff)
  ultimately show ?thesis by simp
qed

theorem no_spurious_stash_witness:
  "fst (hasLocalChanges scripted (init [Inr [], Inr []])) = Return False \<and>
   Stash \<notin> set (calls (produced (syncFromOrigin scripted) (init [Inr [], Inr []]))) \<and>
   StashPop \<notin> set (calls (produced (syncFromOrigin scripted) (init [Inr [], Inr []])))"
proof -
  have "fst (hasLocalChanges scripted (init [Inr [], Inr []])) = Return False" by code_simp
  then show ?thesis using no_spurious_stash[of scripted "init [Inr [], Inr []]"] by simp
qed



text \<open>
  C9. In every call of \<^verbatim>\<open>sync\<close>, no pull-phase call (fetch, stash, pull --rebase, stash
  pop) is issued after a push-phase call (add -u, commit, push); each call has returned or
  thrown before the next is issued.
\<close>

theorem pull_calls_before_push_calls:
  "pull_before_push (calls (produced (sync E) s))"
  using post_produced(2)[OF sync_ordered[unfolded ordered_def], of E s] .

theorem pull_calls_before_push_calls_witness:
  "list_ex pull_call (calls (produced (sync scripted) (init both_changed))) \<and>
   list_ex push_call (calls (produced (sync scripted) (init both_changed))) \<and>
   pull_before_push (calls (produced (sync scripted) (init both_changed)))"
proof -
  have "list_ex pull_call (calls (produced (sync scripted) (init both_changed)))"
    and "list_ex push_call (calls (produced (sync scripted) (init both_changed)))"
    by code_simp+
  then show ?thesis
    using pull_calls_before_push_calls[of scripted "init both_changed"] by simp
qed

text \<open>
  C10. As stated the claim fails twice on \<open>status_fails_in_pull\<close>: the failed status query
  is not silent (\<^verbatim>\<open>hasLocalChanges\<close> writes a \<^verbatim>\<open>console.error\<close> with the error), and
  inside the pull sub-procedure it skips the stash only: \<^verbatim>\<open>pull --rebase\<close> goes ahead.
\<close>

theorem failed_status_logged_and_pull_goes_ahead:
  "produced (hasLocalChanges scripted) (init [Inl ''fatal: unable to read index'']) =
     [Call Status (Inl ''fatal: unable to read index''),
      LogError ''Failed to check local changes:'' ''fatal: unable to read index''] \<and>
   produced (sync scripted) (init status_fails_in_pull) =
     [SetLock True,
      Call UpstreamRef (Inr ''origin/main''),
      Call UpstreamRef (Inr ''origin/main''),
      Call Fetch (Inr []),
      Call RevParseHead (Inr ''a1''),
      Call RevParseUpstream (Inr ''b2''),
      Log ''Pulling changes from upstream...'',
      Call Status (Inl ''fatal: unable to read index''),
      LogError ''Failed to check local changes:'' ''fatal: unable to read index'',
      Call PullRebase (Inr []),
      Log ''Pulled latest changes'',
      Call Status (Inr []),
      Log ''No local changes to sync.'',
      SetLock False]"
  by code_simp

text \<open>
  C10, amended. \<^verbatim>\<open>hasLocalChanges\<close> and \<^verbatim>\<open>hasRemoteChanges\<close> always return a boolean,
  never throw, and return false whenever one of their git calls threw. In every call of
  \<^verbatim>\<open>sync\<close> each failed query is handled where it arose: it is followed at once by the
  query's own console line (the no-upstream warning for the upstream query); after a failed
  fetch, rev-parse or upstream query no stash, pull --rebase or stash pop is called in the
  rest of the cycle; after a failed status query the next git call of the cycle, if there is
  one, is the \<^verbatim>\<open>pull --rebase\<close> of the pull sub-procedure, never stash, add -u, commit or
  push. And \<^verbatim>\<open>sync\<close> does not throw.
\<close>

theorem queries_never_fail:
  "(\<exists>b. fst (hasLocalChanges E s) = Return b) \<and>
   (\<exists>b. fst (hasRemoteChanges E s) = Return b) \<and>
   (list_ex failed (produced (hasLocalChanges E) s) \<longrightarrow>
      fst (hasLocalChanges E s) = Return False) \<and>
   (list_ex failed (produced (hasRemoteChanges E) s) \<longrightarrow>
      fst (hasRemoteChanges E s) = Return False) \<and>
   query_failures_handled (produced (sync E) s) \<and>
   \<not> throws (fst (sync E s))"
proof -
  have "(\<exists>b. fst (hasLocalChanges E s) = Return b) \<and>
        (list_ex failed (produced (hasLocalChanges E) s) \<longrightarrow>
           fst (hasLocalChanges E s) = Return False)"
    by (auto simp: hasLocalChanges_eq produced_def split: prod.splits sum.splits)
  moreover from post_produced(2)[OF hasRemoteChanges_answer, of E s]
  have "(\<exists>b. fst (hasRemoteChanges E s) = Return b) \<and>
        (list_ex failed (produced (hasRemoteChanges E) s) \<longrightarrow>
           fst (hasRemoteChanges E s) = Return False)" .
  moreover have "query_failures_handled (produced (sync E) s)"
    using post_produced(2)[OF sync_handles[unfolded handles_def], of E s] .
  moreover have "\<not> throws (fst (sync E s))"
    using sync_nothrow[of E] by (simp add: nothrow_def)
  ultimately show ?thesis by simp
qed

theorem queries_never_fail_witness:
  "list_ex failed (produced (hasLocalChanges scripted) (init no_upstream)) \<and>
   fst (hasLocalChanges scripted (init no_upstream)) = Return False \<and>
   list_ex failed (produced (hasRemoteChanges scripted) (init fetch_fails)) \<and>
   fst (hasRemoteChanges scripted (init fetch_fails)) = Return False \<and>
   list_ex failed (produced (sync scripted) (init status_fails_in_pull)) \<and>
   query_failures_handled (produced (sync scripted) (init status_fails_in_pull)) \<and>
   \<not> throws (fst (sync scripted (init status_fails_in_pull)))"
proof -
  have "list_ex failed (produced (hasLocalChanges scripted) (init no_upstream))"
    and "list_ex failed (produced (hasRemoteChanges scripted) (init fetch_fails))"
    and "list_ex failed (produced (sync scripted) (init status_fails_in_pull))"
    by code_simp+
  then show ?thesis
    using queries_never_fail[of scripted "init no_upstream"]
      queries_never_fail[of scripted "init fetch_fails"]
      queries_never_fail[of scripted "init status_fails_in_pull"]
    by simp
qed

end
